theory Spec2Isabelle
  imports Main
begin

section \<open>Aligning word-level tags with subword tokens\<close>

text \<open>
  The development embeds the notebook function \<open>get_aligned_tokens_and_tags\<close>, which turns
  a batch of word-tokenised sentences with one tag per word into padded sequences of subword
  token ids, a token mask, aligned tags and a tag mask, and returns them as four tensors.

  The pretrained tokeniser is an external object. The function reads three of its attributes
  and calls it on single words, reading the entry \<open>'input_ids'\<close> of the answer; the record
  below holds exactly these four things. Token ids and tags are Python integers, words are
  strings.

  The function has two parts. Its statements before the \<open>return\<close> build four nested
  lists; they are embedded as \<open>aligned_lists\<close>. Its \<open>return\<close> statement hands each of
  the four lists to the tensor constructor, with the element type \<open>int64\<close> for the ids and
  the tags and \<open>bool\<close> for the two masks; the whole function, with this statement, is
  embedded as \<open>get_aligned_tokens_and_tags\<close>.
\<close>

subsection \<open>Errors, the tokeniser, Python list operations\<close>

text \<open>
  The exceptions: \<open>ValueError\<close> and \<open>TypeError\<close> of Python, and \<open>TensorOverflow\<close> for
  the exception that the tensor constructor raises when it is given an integer outside the
  range of its 64-bit element type.
\<close>

datatype error = ValueError | TypeError | TensorOverflow

record tokeniser =
  cls_token_id :: int
  sep_token_id :: int
  pad_token_id :: int
  input_ids :: "string \<Rightarrow> int list"

text \<open>
  Python's slice \<open>xs[start:stop]\<close> with step 1: a negative bound counts from the end,
  and both bounds are clamped to the list.
\<close>

definition py_slice :: "'a list \<Rightarrow> int \<Rightarrow> int \<Rightarrow> 'a list" where
  "py_slice xs start stop =
     (let n = int (length xs);
          lo = (if start < 0 then max (start + n) 0 else min start n);
          hi = (if stop < 0 then max (stop + n) 0 else min stop n)
      in take (nat (hi - lo)) (drop (nat lo) xs))"

text \<open>\<open>tokeniser(word)['input_ids'][1:-1]\<close>\<close>

definition subword_ids :: "tokeniser \<Rightarrow> string \<Rightarrow> int list" where
  "subword_ids tk word = py_slice (input_ids tk word) 1 (- 1)"

text \<open>\<open>max\<close> of a sequence raises \<open>ValueError\<close> when the sequence is empty.\<close>

fun py_max :: "nat list \<Rightarrow> error + nat" where
  "py_max [] = Inl ValueError"
| "py_max (x # xs) = Inr (foldl max x xs)"

subsection \<open>The aligner\<close>

text \<open>
  The three lists built for one sentence, in the order
  \<open>(indexes, tag_mask, aligned_tags)\<close>.
\<close>

type_synonym sentence_lists = "int list \<times> bool list \<times> int list"

text \<open>
  The body of the innermost loop, \<open>for (i, index) in enumerate(...)\<close>: one subword id is
  appended to \<open>indexes\<close>; the first subword of the word carries the tag.
\<close>

fun append_subword :: "int \<Rightarrow> int \<Rightarrow> sentence_lists \<Rightarrow> nat \<times> int \<Rightarrow> sentence_lists" where
  "append_subword tag no_tag (indexes, tag_mask, aligned_tags) (i, index) =
     (if i = 0
      then (indexes @ [index], tag_mask @ [True], aligned_tags @ [tag])
      else (indexes @ [index], tag_mask @ [False], aligned_tags @ [no_tag]))"

text \<open>The body of the loop \<open>for (tag, word) in zip(tags, tokens)\<close>.\<close>

fun add_word :: "tokeniser \<Rightarrow> int \<Rightarrow> sentence_lists \<Rightarrow> int \<times> string \<Rightarrow> sentence_lists" where
  "add_word tk no_tag acc (tag, word) =
     foldl (append_subword tag no_tag) acc (enumerate 0 (subword_ids tk word))"

text \<open>
  The body of the loop over the batch: start with the CLS token, add the tokens of each
  word, end with the SEP token. \<open>zip\<close> stops at the end of the shorter list, in Python
  as in HOL.
\<close>

definition align_sentence :: "tokeniser \<Rightarrow> int \<Rightarrow> string list \<Rightarrow> int list \<Rightarrow> sentence_lists" where
  "align_sentence tk no_tag tokens tags =
     (case foldl (add_word tk no_tag) ([cls_token_id tk], [False], [no_tag]) (zip tags tokens) of
        (indexes, tag_mask, aligned_tags) \<Rightarrow>
          (indexes @ [sep_token_id tk], tag_mask @ [False], aligned_tags @ [no_tag]))"

text \<open>
  The body of the padding loop. It yields, for one sentence, the padded \<open>indexes\<close>, the new
  token mask, the padded \<open>aligned_tags\<close> and the padded \<open>tag_mask\<close>. A list times a
  number that is not positive is the empty list, which the truncating subtraction of
  \<open>nat\<close> gives too.
\<close>

fun pad_sentence ::
  "tokeniser \<Rightarrow> int \<Rightarrow> nat \<Rightarrow> sentence_lists \<Rightarrow> int list \<times> int list \<times> int list \<times> bool list" where
  "pad_sentence tk no_tag max_len (indexes, tag_mask, aligned_tags) =
     (let num_tokens = length indexes
      in (indexes @ replicate (max_len - num_tokens) (pad_token_id tk),
          replicate num_tokens 1 @ replicate (max_len - num_tokens) 0,
          aligned_tags @ replicate (max_len - num_tokens) no_tag,
          tag_mask @ replicate (max_len - num_tokens) False))"

text \<open>
  The four lists of the batch, in the order in which the \<open>return\<close> statement uses them:
  \<open>(text_indexes, text_token_masks, text_aligned_tags, text_tag_masks)\<close>.
\<close>

type_synonym aligned_batch = "int list list \<times> int list list \<times> int list list \<times> bool list list"

text \<open>
  The first loop of the function: one triple of lists per pair of the zipped batch. The
  source keeps the three components in the lists \<open>text_indexes\<close>, \<open>text_tag_masks\<close>
  and \<open>text_aligned_tags\<close>.
\<close>

definition align_batch ::
  "tokeniser \<Rightarrow> int \<Rightarrow> string list list \<Rightarrow> int list list \<Rightarrow> sentence_lists list" where
  "align_batch tk no_tag text_tokens text_tags =
     map (\<lambda>(tokens, tags). align_sentence tk no_tag tokens tags) (zip text_tokens text_tags)"

text \<open>
  The statements of the function before its \<open>return\<close>: the first loop, \<open>max_len\<close>, the
  padding loop. The value is the four lists as they are when the \<open>return\<close> statement is
  reached, or the exception of \<open>max\<close>.
\<close>

definition aligned_lists ::
  "tokeniser \<Rightarrow> string list list \<Rightarrow> int list list \<Rightarrow> int \<Rightarrow> error + aligned_batch" where
  "aligned_lists tk text_tokens text_tags no_tag =
     (let sentences = align_batch tk no_tag text_tokens text_tags
      in case py_max (map (\<lambda>(indexes, tag_mask, aligned_tags). length indexes) sentences) of
           Inl e \<Rightarrow> Inl e
         | Inr max_len \<Rightarrow>
             (let padded = map (pad_sentence tk no_tag max_len) sentences
              in Inr (map (\<lambda>(i, m, t, c). i) padded,
                      map (\<lambda>(i, m, t, c). m) padded,
                      map (\<lambda>(i, m, t, c). t) padded,
                      map (\<lambda>(i, m, t, c). c) padded)))"

subsection \<open>The returned tensors\<close>

text \<open>
  The \<open>return\<close> statement builds four tensors with \<open>torch.tensor\<close>. A tensor of two
  dimensions is modelled by the list of its rows. The placement on a device does not change
  the elements and is not modelled.

  An element of an \<open>int64\<close> tensor is an integer from \<open>- 2 ^ 63\<close> up to \<open>2 ^ 63 - 1\<close>.
  The constructor raises when an integer of the nested list is outside this range, and
  copies the integers otherwise. It also wants rows of one length; the rows that the
  function gives it always have one length (lemma \<open>aligned_lists_rectangular\<close>), so this
  is not a case of the model.
\<close>

definition int64 :: "int \<Rightarrow> bool" where
  "int64 x = (- (2 ^ 63) \<le> x \<and> x < 2 ^ 63)"

definition tensor_int64 :: "int list list \<Rightarrow> error + int list list" where
  "tensor_int64 rows = (if list_all (list_all int64) rows then Inr rows else Inl TensorOverflow)"

text \<open>
  An element of a \<open>bool\<close> tensor is a truth value. The constructor accepts every integer:
  zero becomes \<open>False\<close>, any other integer \<open>True\<close>. The token masks are lists of the
  integers 1 and 0; the tag masks are lists of truth values already.
\<close>

definition tensor_bool_of_ints :: "int list list \<Rightarrow> bool list list" where
  "tensor_bool_of_ints rows = map (map (\<lambda>x. x \<noteq> 0)) rows"

definition tensor_bool :: "bool list list \<Rightarrow> bool list list" where
  "tensor_bool rows = rows"

text \<open>
  The returned tuple of tensors:
  \<open>(text_indexes, text_token_masks, text_aligned_tags, text_tag_masks)\<close> with the element
  types \<open>int64\<close>, \<open>bool\<close>, \<open>int64\<close>, \<open>bool\<close>.
\<close>

type_synonym aligned_tensors = "int list list \<times> bool list list \<times> int list list \<times> bool list list"

text \<open>The \<open>return\<close> statement: the four constructor calls, from left to right.\<close>

fun return_tensors :: "aligned_batch \<Rightarrow> error + aligned_tensors" where
  "return_tensors (text_indexes, text_token_masks, text_aligned_tags, text_tag_masks) =
     (case tensor_int64 text_indexes of
        Inl e \<Rightarrow> Inl e
      | Inr indexes_tensor \<Rightarrow>
          (let token_masks_tensor = tensor_bool_of_ints text_token_masks
           in case tensor_int64 text_aligned_tags of
                Inl e \<Rightarrow> Inl e
              | Inr aligned_tags_tensor \<Rightarrow>
                  Inr (indexes_tensor, token_masks_tensor, aligned_tags_tensor,
                       tensor_bool text_tag_masks)))"

text \<open>The whole function.\<close>

definition get_aligned_tokens_and_tags ::
  "tokeniser \<Rightarrow> string list list \<Rightarrow> int list list \<Rightarrow> int \<Rightarrow> error + aligned_tensors" where
  "get_aligned_tokens_and_tags tk text_tokens text_tags no_tag =
     (case aligned_lists tk text_tokens text_tags no_tag of
        Inl e \<Rightarrow> Inl e
      | Inr built \<Rightarrow> return_tensors built)"

text \<open>
  The integers that the function can put into the two \<open>int64\<close> tensors all fit: the three
  marker ids of the tokeniser, the no-tag value, and for every word that is paired with a
  tag, the tag and the subword ids of the word.
\<close>

definition values_fit_int64 ::
  "tokeniser \<Rightarrow> string list list \<Rightarrow> int list list \<Rightarrow> int \<Rightarrow> bool" where
  "values_fit_int64 tk text_tokens text_tags no_tag =
     (int64 (cls_token_id tk) \<and> int64 (sep_token_id tk) \<and> int64 (pad_token_id tk) \<and>
      int64 no_tag \<and>
      list_all (\<lambda>(tokens, tags).
          list_all (\<lambda>(tag, word). int64 tag \<and> list_all int64 (subword_ids tk word)) (zip tags tokens))
        (zip text_tokens text_tags))"

subsection \<open>Closed forms of the loops\<close>

text \<open>
  What the innermost loop appends to \<open>tag_mask\<close> and to \<open>aligned_tags\<close> for a word with
  the subword ids \<open>ids\<close>: nothing when there are none, else one entry for the first id and
  one for each id after it.
\<close>

definition word_tag_mask :: "int list \<Rightarrow> bool list" where
  "word_tag_mask ids = (case ids of [] \<Rightarrow> [] | first # others \<Rightarrow> True # replicate (length others) False)"

definition word_aligned_tags :: "int \<Rightarrow> int \<Rightarrow> int list \<Rightarrow> int list" where
  "word_aligned_tags tag no_tag ids =
     (case ids of [] \<Rightarrow> [] | first # others \<Rightarrow> tag # replicate (length others) no_tag)"

text \<open>The pairs of a sentence whose word has at least one subword id.\<close>

definition tokenised_pairs :: "tokeniser \<Rightarrow> string list \<Rightarrow> int list \<Rightarrow> (int \<times> string) list" where
  "tokenised_pairs tk tokens tags =
     filter (\<lambda>(tag, word). subword_ids tk word \<noteq> []) (zip tags tokens)"

text \<open>The value of \<open>max_len\<close> for a batch that is not empty.\<close>

definition batch_max_len :: "tokeniser \<Rightarrow> int \<Rightarrow> string list list \<Rightarrow> int list list \<Rightarrow> nat" where
  "batch_max_len tk no_tag text_tokens text_tags =
     Max (set (map (\<lambda>(indexes, tag_mask, aligned_tags). length indexes)
                   (align_batch tk no_tag text_tokens text_tags)))"

subsection \<open>The alignment as the specification words it\<close>




subsection \<open>A tokeniser for the examples\<close>

text \<open>
  The examples need a concrete tokeniser; the pretrained one is not part of the sources.
  This one answers in the shape of the pretrained tokeniser: the ids of the pieces of the
  word between the id of the CLS marker and the id of the SEP marker. It has one piece
  for each of the words \<open>I\<close>, \<open>like\<close>, \<open>it\<close> and \<open>.\<close>, three pieces for \<open>don't\<close>, no
  piece for the empty word and one piece, the unknown token, for any other word. The ids
  themselves are chosen for the examples.
\<close>

definition example_input_ids :: "string \<Rightarrow> int list" where
  "example_input_ids word =
     (if word = ''I'' then [101, 1045, 102]
      else if word = ''don't'' then [101, 2123, 1005, 1056, 102]
      else if word = ''like'' then [101, 2066, 102]
      else if word = ''it'' then [101, 2009, 102]
      else if word = ''.'' then [101, 1012, 102]
      else if word = [] then [101, 102]
      else [101, 100, 102])"

definition example_tokeniser :: tokeniser where
  "example_tokeniser =
     \<lparr>cls_token_id = 101, sep_token_id = 102, pad_token_id = 0, input_ids = example_input_ids\<rparr>"


section \<open>The aligner on an explicit store\<close>

text \<open>
  The function builds its results by appending to lists and extending them in place. To
  state what it does to the lists it is given, the lists live in a store: a list object is
  an address, the store maps addresses to the elements of the lists, and the addresses
  below \<open>lim\<close> are those of the lists that exist. An element of a list is an integer, a
  boolean, a string or a reference to a list.
\<close>

datatype pyval = PyInt int | PyBool bool | PyStr string | PyRef nat

record store =
  objects :: "nat \<Rightarrow> pyval list"
  lim :: nat

text \<open>
  A new list gets the next free address. \<open>append\<close> and \<open>extend\<close> change the list at
  an address in place.
\<close>

definition alloc :: "pyval list \<Rightarrow> store \<Rightarrow> nat \<times> store" where
  "alloc xs h = (lim h, h\<lparr>objects := (objects h)(lim h := xs), lim := Suc (lim h)\<rparr>)"

definition list_extend :: "nat \<Rightarrow> pyval list \<Rightarrow> store \<Rightarrow> store" where
  "list_extend a vs h = h\<lparr>objects := (objects h)(a := objects h a @ vs)\<rparr>"

definition list_append :: "nat \<Rightarrow> pyval \<Rightarrow> store \<Rightarrow> store" where
  "list_append a v h = list_extend a [v] h"

text \<open>
  The list a value refers to, for the values that are iterated over or measured with
  \<open>len\<close>; a value that is not a reference to a list of the store has none.
\<close>

definition list_at :: "store \<Rightarrow> pyval \<Rightarrow> pyval list option" where
  "list_at h v = (case v of PyRef a \<Rightarrow> if a < lim h then Some (objects h a) else None | _ \<Rightarrow> None)"

text \<open>
  A loop ends with the exception it raised, if any, and the store. The arguments of the
  aligner are lists of lists of strings and of integers; where the store holds a value of
  another kind in their place, the model raises \<open>TypeError\<close>.
\<close>

type_synonym outcome = "error option \<times> store"

text \<open>
  The body of the innermost loop, on the three lists of the sentence at the addresses
  \<open>indexes\<close>, \<open>tag_mask\<close> and \<open>aligned_tags\<close>. The subword ids are the tokeniser's
  answer, a list of its own that nothing else refers to.
\<close>

fun store_append_subword :: "pyval \<Rightarrow> int \<Rightarrow> nat \<times> nat \<times> nat \<Rightarrow> store \<Rightarrow> nat \<times> int \<Rightarrow> store" where
  "store_append_subword tag no_tag (indexes, tag_mask, aligned_tags) h (i, index) =
     (let h1 = list_append indexes (PyInt index) h
      in if i = 0
         then list_append aligned_tags tag (list_append tag_mask (PyBool True) h1)
         else list_append aligned_tags (PyInt no_tag) (list_append tag_mask (PyBool False) h1))"

definition store_add_word :: "tokeniser \<Rightarrow> int \<Rightarrow> nat \<times> nat \<times> nat \<Rightarrow> store \<Rightarrow> pyval \<Rightarrow> string \<Rightarrow> store" where
  "store_add_word tk no_tag locals h tag word =
     foldl (store_append_subword tag no_tag locals) h (enumerate 0 (subword_ids tk word))"

text \<open>
  The loop \<open>for (tag, word) in zip(tags, tokens)\<close>. A list iterator reads the list
  anew at every step, so the loop reads both lists from the current store at position
  \<open>k\<close> and stops when either has no such position. A loop that does not end has the
  value \<open>None\<close>.
\<close>

partial_function (option) store_word_loop ::
  "tokeniser \<Rightarrow> int \<Rightarrow> pyval \<Rightarrow> pyval \<Rightarrow> nat \<times> nat \<times> nat \<Rightarrow> nat \<Rightarrow> store \<Rightarrow> outcome option" where
  "store_word_loop tk no_tag tags tokens locals k h =
     (case list_at h tags of
        None \<Rightarrow> Some (Some TypeError, h)
      | Some gs \<Rightarrow>
          (case list_at h tokens of
             None \<Rightarrow> Some (Some TypeError, h)
           | Some ws \<Rightarrow>
               if k < length gs \<and> k < length ws
               then (case ws ! k of
                       PyStr word \<Rightarrow>
                         store_word_loop tk no_tag tags tokens locals (Suc k)
                           (store_add_word tk no_tag locals h (gs ! k) word)
                     | _ \<Rightarrow> Some (Some TypeError, h))
               else Some (None, h)))"

text \<open>
  The body of the loop over the batch: three new lists, the loop over the words, the SEP
  token, and the three lists appended to \<open>text_indexes\<close>, \<open>text_aligned_tags\<close> and
  \<open>text_tag_masks\<close>.
\<close>

definition store_align_sentence ::
  "tokeniser \<Rightarrow> int \<Rightarrow> nat \<times> nat \<times> nat \<Rightarrow> pyval \<Rightarrow> pyval \<Rightarrow> store \<Rightarrow> outcome option" where
  "store_align_sentence tk no_tag texts tokens tags h =
     (case texts of (text_indexes, text_aligned_tags, text_tag_masks) \<Rightarrow>
      case alloc [PyInt (cls_token_id tk)] h of (indexes, h1) \<Rightarrow>
      case alloc [PyBool False] h1 of (tag_mask, h2) \<Rightarrow>
      case alloc [PyInt no_tag] h2 of (aligned_tags, h3) \<Rightarrow>
      case store_word_loop tk no_tag tags tokens (indexes, tag_mask, aligned_tags) 0 h3 of
        None \<Rightarrow> None
      | Some (Some e, h4) \<Rightarrow> Some (Some e, h4)
      | Some (None, h4) \<Rightarrow>
          Some (None,
            list_append text_tag_masks (PyRef tag_mask)
             (list_append text_aligned_tags (PyRef aligned_tags)
               (list_append text_indexes (PyRef indexes)
                 (list_append aligned_tags (PyInt no_tag)
                   (list_append tag_mask (PyBool False)
                     (list_append indexes (PyInt (sep_token_id tk)) h4)))))))"

text \<open>
  The loop \<open>for (tokens, tags) in zip(text_tokens, text_tags)\<close>.
\<close>

partial_function (option) store_batch_loop ::
  "tokeniser \<Rightarrow> int \<Rightarrow> pyval \<Rightarrow> pyval \<Rightarrow> nat \<times> nat \<times> nat \<Rightarrow> nat \<Rightarrow> store \<Rightarrow> outcome option" where
  "store_batch_loop tk no_tag text_tokens text_tags texts k h =
     (case list_at h text_tokens of
        None \<Rightarrow> Some (Some TypeError, h)
      | Some ts \<Rightarrow>
          (case list_at h text_tags of
             None \<Rightarrow> Some (Some TypeError, h)
           | Some gs \<Rightarrow>
               if k < length ts \<and> k < length gs
               then (case store_align_sentence tk no_tag texts (ts ! k) (gs ! k) h of
                       None \<Rightarrow> None
                     | Some (Some e, h') \<Rightarrow> Some (Some e, h')
                     | Some (None, h') \<Rightarrow> store_batch_loop tk no_tag text_tokens text_tags texts (Suc k) h')
               else Some (None, h)))"

text \<open>
  \<open>max(len(indexes) for indexes in text_indexes)\<close>
\<close>

definition store_max_len :: "store \<Rightarrow> nat \<Rightarrow> error + nat" where
  "store_max_len h text_indexes =
     (case those (map (\<lambda>v. map_option length (list_at h v)) (objects h text_indexes)) of
        None \<Rightarrow> Inl TypeError
      | Some lens \<Rightarrow> py_max lens)"

text \<open>
  \<open>xs[i].extend(vs)\<close> for the list \<open>xs\<close> at the address \<open>a\<close>.
\<close>

definition extend_item :: "nat \<Rightarrow> nat \<Rightarrow> pyval list \<Rightarrow> store \<Rightarrow> error + store" where
  "extend_item a i vs h =
     (case objects h a ! i of
        PyRef b \<Rightarrow> if b < lim h then Inr (list_extend b vs h) else Inl TypeError
      | _ \<Rightarrow> Inl TypeError)"

text \<open>
  The padding loop, over \<open>enumerate(zip(text_indexes, text_tag_masks, text_aligned_tags))\<close>:
  a new list for the token mask, appended to \<open>text_token_masks\<close>, and the three lists of
  sentence \<open>i\<close> extended in place.
\<close>

partial_function (option) store_pad_loop ::
  "tokeniser \<Rightarrow> int \<Rightarrow> nat \<Rightarrow> nat \<times> nat \<times> nat \<times> nat \<Rightarrow> nat \<Rightarrow> store \<Rightarrow> outcome option" where
  "store_pad_loop tk no_tag max_len texts i h =
     (case texts of (text_indexes, text_tag_masks, text_aligned_tags, text_token_masks) \<Rightarrow>
      if i < length (objects h text_indexes) \<and> i < length (objects h text_tag_masks) \<and>
         i < length (objects h text_aligned_tags)
      then (case list_at h (objects h text_indexes ! i) of
              None \<Rightarrow> Some (Some TypeError, h)
            | Some indexes \<Rightarrow>
                (case alloc (replicate (length indexes) (PyInt 1) @
                             replicate (max_len - length indexes) (PyInt 0)) h of
                   (token_mask, h0) \<Rightarrow>
                (let h1 = list_append text_token_masks (PyRef token_mask) h0 in
                (case extend_item text_indexes i
                        (replicate (max_len - length indexes) (PyInt (pad_token_id tk))) h1 of
                   Inl e \<Rightarrow> Some (Some e, h1)
                 | Inr h2 \<Rightarrow>
                (case extend_item text_tag_masks i
                        (replicate (max_len - length indexes) (PyBool False)) h2 of
                   Inl e \<Rightarrow> Some (Some e, h2)
                 | Inr h3 \<Rightarrow>
                (case extend_item text_aligned_tags i
                        (replicate (max_len - length indexes) (PyInt no_tag)) h3 of
                   Inl e \<Rightarrow> Some (Some e, h3)
                 | Inr h4 \<Rightarrow> store_pad_loop tk no_tag max_len texts (Suc i) h4))))))
      else Some (None, h))"

text \<open>
  The statements of the function before its \<open>return\<close>, on the store. The arguments are
  the values of \<open>text_tokens\<close> and \<open>text_tags\<close>; the result is the addresses of the
  four lists that the \<open>return\<close> statement hands to the tensor constructor, in the order of
  the returned tuple. The \<open>return\<close> statement reads these four lists to build the tensors
  and writes to no list, so the store at the end of the call is the store given here.
\<close>

definition store_aligned_lists ::
  "tokeniser \<Rightarrow> pyval \<Rightarrow> pyval \<Rightarrow> int \<Rightarrow> store \<Rightarrow>
     ((error + nat \<times> nat \<times> nat \<times> nat) \<times> store) option" where
  "store_aligned_lists tk text_tokens text_tags no_tag h =
     (case alloc [] h of (text_indexes, h1) \<Rightarrow>
      case alloc [] h1 of (text_aligned_tags, h2) \<Rightarrow>
      case alloc [] h2 of (text_tag_masks, h3) \<Rightarrow>
      case store_batch_loop tk no_tag text_tokens text_tags
             (text_indexes, text_aligned_tags, text_tag_masks) 0 h3 of
        None \<Rightarrow> None
      | Some (Some e, h4) \<Rightarrow> Some (Inl e, h4)
      | Some (None, h4) \<Rightarrow>
          (case store_max_len h4 text_indexes of
             Inl e \<Rightarrow> Some (Inl e, h4)
           | Inr max_len \<Rightarrow>
               (case alloc [] h4 of (text_token_masks, h5) \<Rightarrow>
                case store_pad_loop tk no_tag max_len
                       (text_indexes, text_tag_masks, text_aligned_tags, text_token_masks) 0 h5 of
                  None \<Rightarrow> None
                | Some (Some e, h6) \<Rightarrow> Some (Inl e, h6)
                | Some (None, h6) \<Rightarrow>
                    Some (Inr (text_indexes, text_token_masks, text_aligned_tags, text_tag_masks), h6))))"

text \<open>
  The loops are run by their recursion equations.
\<close>

declare store_word_loop.simps [code]
declare store_batch_loop.simps [code]
declare store_pad_loop.simps [code]


text \<open>
  \<open>holds_rows h v rows\<close>: in the store \<open>h\<close> the value \<open>v\<close> refers to a list of
  references to lists, whose elements are \<open>rows\<close>. \<open>unchanged_below n h h'\<close>: every
  list at an address below \<open>n\<close> has in \<open>h'\<close> the elements it has in \<open>h\<close>.
\<close>

definition holds_rows :: "store \<Rightarrow> pyval \<Rightarrow> pyval list list \<Rightarrow> bool" where
  "holds_rows h v rows =
     (case list_at h v of None \<Rightarrow> False | Some vs \<Rightarrow> map (list_at h) vs = map Some rows)"

definition unchanged_below :: "nat \<Rightarrow> store \<Rightarrow> store \<Rightarrow> bool" where
  "unchanged_below n h h' = (n \<le> lim h' \<and> (\<forall>a < n. objects h' a = objects h a))"

text \<open>
  A store for the examples: the batch of the two sentences \<open>I don't\<close> and \<open>it\<close> with
  the tags 1, 2 and 4, and the store of the single sentence \<open>I\<close> with the tag 1.
\<close>

definition example_store :: store where
  "example_store =
     \<lparr>objects = (\<lambda>a. [])
        (0 := [PyRef 2, PyRef 3], 1 := [PyRef 4, PyRef 5],
         2 := [PyStr ''I'', PyStr ''don't''], 3 := [PyStr ''it''],
         4 := [PyInt 1, PyInt 2], 5 := [PyInt 4]),
      lim = 6\<rparr>"

definition small_store :: store where
  "small_store =
     \<lparr>objects = (\<lambda>a. [])
        (0 := [PyRef 2], 1 := [PyRef 3], 2 := [PyStr ''I''], 3 := [PyInt 1]),
      lim = 4\<rparr>"


subsection \<open>The stores of the loops\<close>

text \<open>
  The three lists of a sentence hold the lists of the aligner without a store. After
  \<open>k\<close> sentences of the batch loop, and after \<open>i\<close> sentences of the padding loop over
  \<open>n\<close> sentences, the store that the call started with is below \<open>lim h0\<close>; then come
  the three lists of references, three lists for every sentence, the list of token masks
  and one token mask for every padded sentence.
\<close>

definition locals_hold :: "store \<Rightarrow> nat \<times> nat \<times> nat \<Rightarrow> sentence_lists \<Rightarrow> bool" where
  "locals_hold h locals acc =
     (case locals of (ia, ma, ta) \<Rightarrow> case acc of (indexes, tag_mask, aligned_tags) \<Rightarrow>
        objects h ia = map PyInt indexes \<and> objects h ma = map PyBool tag_mask \<and>
        objects h ta = map PyInt aligned_tags)"

definition batch_inv ::
  "tokeniser \<Rightarrow> int \<Rightarrow> store \<Rightarrow> string list list \<Rightarrow> int list list \<Rightarrow> nat \<Rightarrow> store \<Rightarrow> bool" where
  "batch_inv tk no_tag h0 tt tg k h =
     (lim h = lim h0 + 3 + 3 * k \<and>
      (\<forall>a < lim h0. objects h a = objects h0 a) \<and>
      objects h (lim h0) = map (\<lambda>j. PyRef (lim h0 + 3 + 3 * j)) [0..<k] \<and>
      objects h (lim h0 + 1) = map (\<lambda>j. PyRef (lim h0 + 3 + 3 * j + 2)) [0..<k] \<and>
      objects h (lim h0 + 2) = map (\<lambda>j. PyRef (lim h0 + 3 + 3 * j + 1)) [0..<k] \<and>
      (\<forall>j < k. locals_hold h (lim h0 + 3 + 3 * j, lim h0 + 3 + 3 * j + 1, lim h0 + 3 + 3 * j + 2)
                  (align_sentence tk no_tag (tt ! j) (tg ! j))))"

definition pad_inv ::
  "tokeniser \<Rightarrow> int \<Rightarrow> store \<Rightarrow> string list list \<Rightarrow> int list list \<Rightarrow> nat \<Rightarrow> nat \<Rightarrow> nat \<Rightarrow> store \<Rightarrow> bool" where
  "pad_inv tk no_tag h0 tt tg n max_len i h =
     (let b = lim h0 + 3; c = lim h0 + 3 + 3 * n
      in lim h = c + 1 + i \<and>
         (\<forall>a < lim h0. objects h a = objects h0 a) \<and>
         objects h (lim h0) = map (\<lambda>j. PyRef (b + 3 * j)) [0..<n] \<and>
         objects h (lim h0 + 1) = map (\<lambda>j. PyRef (b + 3 * j + 2)) [0..<n] \<and>
         objects h (lim h0 + 2) = map (\<lambda>j. PyRef (b + 3 * j + 1)) [0..<n] \<and>
         objects h c = map (\<lambda>j. PyRef (c + 1 + j)) [0..<i] \<and>
         (\<forall>j < n. case align_sentence tk no_tag (tt ! j) (tg ! j) of
            (indexes, tag_mask, aligned_tags) \<Rightarrow>
              objects h (b + 3 * j) =
                map PyInt (indexes @ replicate (if j < i then max_len - length indexes else 0)
                                               (pad_token_id tk)) \<and>
              objects h (b + 3 * j + 1) =
                map PyBool (tag_mask @ replicate (if j < i then max_len - length indexes else 0) False) \<and>
              objects h (b + 3 * j + 2) =
                map PyInt (aligned_tags @ replicate (if j < i then max_len - length indexes else 0) no_tag) \<and>
              (j < i \<longrightarrow> objects h (c + 1 + j) =
                map PyInt (replicate (length indexes) 1 @ replicate (max_len - length indexes) 0))))"

section \<open>Byte pair encoding: the construction of the vocabulary\<close>

text \<open>
  The notebook describes the construction of a vocabulary by byte pair encoding in prose
  only; no cell implements it. The definitions of this section follow the algorithm as the
  specification words it (section 4.1).
\<close>

text \<open>
  Modelled from the spec: the tokens of the vocabulary builder, which the sources do not
  implement. A token is a sequence of characters, each marked as word-initial
  (\<open>False\<close>) or continuation (\<open>True\<close>), so that a continuation piece and a word-initial
  piece with the same characters are different tokens and a merged token inherits the
  marking of its first element.
\<close>

type_synonym symbol = "bool \<times> char"

type_synonym token = "symbol list"

text \<open>
  Modelled from the spec: step 1, absent from the sources. A word starts as the sequence
  of its characters, the first marked word-initial and the others continuation.
\<close>

fun init_word :: "string \<Rightarrow> token list" where
  "init_word [] = []"
| "init_word (c # cs) = [(False, c)] # map (\<lambda>d. [(True, d)]) cs"

definition init_corpus :: "string list \<Rightarrow> token list list" where
  "init_corpus text_words = map init_word text_words"

text \<open>
  Modelled from the spec: step 2, absent from the sources. The vocabulary starts with
  every distinct character token of the corpus. The vocabulary is a list without
  repetitions; its entries are the elements of the list.
\<close>

definition init_vocabulary :: "string list \<Rightarrow> token list" where
  "init_vocabulary text_words = remdups (concat (init_corpus text_words))"

text \<open>
  Modelled from the spec: the pair selection of step 3, absent from the sources. The
  adjacent pairs are taken inside the words, so no pair spans two words; the frequency of
  a pair is the number of its occurrences among them; of the pairs with the highest
  frequency the one met first, going through the words in order and through each word
  from the left, is selected. By step 4 no pair is selected when none occurs more than
  once.
\<close>

definition adjacent_pairs :: "token list list \<Rightarrow> (token \<times> token) list" where
  "adjacent_pairs corpus = concat (map (\<lambda>w. zip w (tl w)) corpus)"

definition most_frequent :: "(token \<times> token) list \<Rightarrow> (token \<times> token) option" where
  "most_frequent ps =
     (case ps of
        [] \<Rightarrow> None
      | p # rest \<Rightarrow>
          Some (fold (\<lambda>q best. if count_list ps best < count_list ps q then q else best) rest p))"

definition select_pair :: "token list list \<Rightarrow> (token \<times> token) option" where
  "select_pair corpus =
     (case most_frequent (adjacent_pairs corpus) of
        None \<Rightarrow> None
      | Some p \<Rightarrow> if 1 < count_list (adjacent_pairs corpus) p then Some p else None)"

text \<open>
  Modelled from the spec: the replacement of step 3, absent from the sources. All
  occurrences of the pair in a word are replaced by the merged token, going through the
  word from the left; of two overlapping occurrences the left one is replaced.
\<close>

fun merge_word :: "token \<Rightarrow> token \<Rightarrow> token list \<Rightarrow> token list" where
  "merge_word a b [] = []"
| "merge_word a b [x] = [x]"
| "merge_word a b (x # y # ts) =
     (if x = a \<and> y = b then (a @ b) # merge_word a b ts else x # merge_word a b (y # ts))"

text \<open>
  Modelled from the spec: one merge step, absent from the sources: the state is the
  vocabulary and the corpus; the step is not taken when the vocabulary has reached the
  target size or no pair occurs more than once, else the selected pair is merged in the
  corpus and the merged token is added to the vocabulary.
\<close>

type_synonym bpe_state = "token list \<times> token list list"

fun merge_step :: "nat \<Rightarrow> bpe_state \<Rightarrow> bpe_state option" where
  "merge_step target (vocabulary, corpus) =
     (if target \<le> length vocabulary then None
      else case select_pair corpus of
             None \<Rightarrow> None
           | Some (a, b) \<Rightarrow> Some (List.insert (a @ b) vocabulary, map (merge_word a b) corpus))"

text \<open>
  Modelled from the spec: the states of the construction, absent from the sources: the
  initial state and every state that a merge step yields from one of them.
\<close>

inductive constructs :: "nat \<Rightarrow> string list \<Rightarrow> bpe_state \<Rightarrow> bool" for target text_words where
  start: "constructs target text_words (init_vocabulary text_words, init_corpus text_words)"
| merge: "constructs target text_words st \<Longrightarrow> merge_step target st = Some st' \<Longrightarrow>
          constructs target text_words st'"

text \<open>
  Modelled from the spec: the loop of steps 3 and 4 and the vocabulary builder, absent
  from the sources. Every merge makes the corpus shorter by one token at least, so the
  loop ends.
\<close>

function bpe_loop :: "nat \<Rightarrow> bpe_state \<Rightarrow> bpe_state" where
  "bpe_loop target st =
     (case merge_step target st of None \<Rightarrow> st | Some st' \<Rightarrow> bpe_loop target st')"
  by pat_completeness auto
termination
proof (relation "measure (\<lambda>(target, st). length (concat (snd st)))")
  show "wf (measure (\<lambda>(target, st). length (concat (snd st))))"
    by simp
next
  fix target :: nat and st st' :: bpe_state
  assume step: "merge_step target st = Some st'"
  obtain vocabulary corpus where st: "st = (vocabulary, corpus)"
    by (cases st)
  from step st obtain a b where
    sel: "select_pair corpus = Some (a, b)" and st': "snd st' = map (merge_word a b) corpus"
    by (auto split: if_splits option.splits)
  have le: "length (merge_word c d w) \<le> length w" for c d w
    by (induction c d w rule: merge_word.induct) auto
  have less: "(c, d) \<in> set (zip w (tl w)) \<Longrightarrow> length (merge_word c d w) < length w" for c d w
  proof (induction c d w rule: merge_word.induct)
    case (3 c d x y ts)
    then show ?case
      using le [of c d ts] by (auto simp: less_Suc_eq_le)
  qed simp_all
  have in_fold: "fold (\<lambda>q best. if count_list ps best < count_list ps q then q else best) rest p
      \<in> insert p (set rest)" for ps rest and p :: "token \<times> token"
    by (induction rest arbitrary: p) auto
  have "(a, b) \<in> set (adjacent_pairs corpus)"
    using sel in_fold [of "adjacent_pairs corpus"]
    by (auto simp: select_pair_def most_frequent_def split: list.splits option.splits if_splits)
  then obtain w where w: "w \<in> set corpus" "(a, b) \<in> set (zip w (tl w))"
    by (auto simp: adjacent_pairs_def)
  have "sum_list (map (\<lambda>w. length (merge_word a b w)) corpus) < sum_list (map length corpus)"
    using w(1)
  proof (induction corpus)
    case Nil
    then show ?case by simp
  next
    case (Cons v vs)
    have all: "sum_list (map (\<lambda>w. length (merge_word a b w)) vs) \<le> sum_list (map length vs)"
      by (rule sum_list_mono) (rule le)
    show ?case
    proof (cases "w = v")
      case True
      with less [OF w(2)] all show ?thesis by simp
    next
      case False
      with Cons have "sum_list (map (\<lambda>w. length (merge_word a b w)) vs) < sum_list (map length vs)"
        by simp
      with le [of a b v] show ?thesis by simp
    qed
  qed
  then have "length (concat (snd st')) < length (concat (snd st))"
    by (simp add: st st' length_concat comp_def)
  then show "((target, st'), (target, st)) \<in> measure (\<lambda>(target, st). length (concat (snd st)))"
    by simp
qed

definition build_vocabulary :: "nat \<Rightarrow> string list \<Rightarrow> token list" where
  "build_vocabulary target text_words =
     fst (bpe_loop target (init_vocabulary text_words, init_corpus text_words))"


subsection \<open>Two properties of the corpus during the construction\<close>

text \<open>
  Two parts of words of the corpus, each a run of whole tokens, that spell the same
  characters are the same run of tokens; and a run of whole tokens that spells an entry
  of the vocabulary is that entry alone.
\<close>

definition closed_parts_agree :: "token list list \<Rightarrow> bool" where
  "closed_parts_agree corpus =
     (\<forall>w1 \<in> set corpus. \<forall>w2 \<in> set corpus. \<forall>xs1 us1 ys1 xs2 us2 ys2.
        w1 = xs1 @ us1 @ ys1 \<and> w2 = xs2 @ us2 @ ys2 \<and> concat us1 = concat us2 \<longrightarrow> us1 = us2)"

definition entries_unsplit :: "token list \<Rightarrow> token list list \<Rightarrow> bool" where
  "entries_unsplit vocabulary corpus =
     (\<forall>v \<in> set vocabulary. \<forall>w \<in> set corpus. \<forall>xs us ys.
        w = xs @ us @ ys \<and> concat us = v \<longrightarrow> us = [v])"

section \<open>Properties of the aligner\<close>

subsection \<open>The slice and the loops in closed form\<close>




lemma foldl_append_subword:
  "foldl (append_subword tag nt) (a, b, c) ps =
     (a @ map snd ps, b @ map (\<lambda>p. fst p = 0) ps, c @ map (\<lambda>p. if fst p = 0 then tag else nt) ps)"
  by (induction ps arbitrary: a b c) auto

lemma enumerate_pos_mask: "0 < n \<Longrightarrow> map (\<lambda>p. fst p = 0) (enumerate n xs) = replicate (length xs) False"
  by (induction xs arbitrary: n) auto

lemma enumerate_pos_tags:
  "0 < n \<Longrightarrow> map (\<lambda>p. if fst p = 0 then tag else nt) (enumerate n xs) = replicate (length xs) nt"
  by (induction xs arbitrary: n) auto

lemma enumerate_word_tag_mask: "map (\<lambda>p. fst p = 0) (enumerate 0 ids) = word_tag_mask ids"
  by (cases ids) (simp_all add: word_tag_mask_def enumerate_pos_mask)

lemma enumerate_word_aligned_tags:
  "map (\<lambda>p. if fst p = 0 then tag else nt) (enumerate 0 ids) = word_aligned_tags tag nt ids"
  by (cases ids) (simp_all add: word_aligned_tags_def enumerate_pos_tags)

lemma add_word_closed:
  "add_word tk nt (a, b, c) (tag, word) =
     (a @ subword_ids tk word, b @ word_tag_mask (subword_ids tk word),
      c @ word_aligned_tags tag nt (subword_ids tk word))"
  by (simp add: foldl_append_subword enumerate_word_tag_mask enumerate_word_aligned_tags)

lemma foldl_add_word:
  "foldl (add_word tk nt) (a, b, c) ps =
     (a @ concat (map (\<lambda>(tag, word). subword_ids tk word) ps),
      b @ concat (map (\<lambda>(tag, word). word_tag_mask (subword_ids tk word)) ps),
      c @ concat (map (\<lambda>(tag, word). word_aligned_tags tag nt (subword_ids tk word)) ps))"
proof (induction ps arbitrary: a b c)
  case Nil
  show ?case by simp
next
  case (Cons p ps)
  obtain tag word where p: "p = (tag, word)" by (cases p)
  show ?case
    unfolding p foldl_Cons add_word_closed Cons.IH by simp
qed

lemma align_sentence_closed:
  "align_sentence tk nt tokens tags =
     (cls_token_id tk # concat (map (\<lambda>(tag, word). subword_ids tk word) (zip tags tokens))
        @ [sep_token_id tk],
      False # concat (map (\<lambda>(tag, word). word_tag_mask (subword_ids tk word)) (zip tags tokens))
        @ [False],
      nt # concat (map (\<lambda>(tag, word). word_aligned_tags tag nt (subword_ids tk word)) (zip tags tokens))
        @ [nt])"
  by (simp add: align_sentence_def foldl_add_word)

lemma py_max_Cons: "py_max (x # ys) = Inr (Max (set (x # ys)))"
proof -
  have "foldl max x ys = fold max ys x"
    by (simp add: foldl_conv_fold max.commute)
  also have "\<dots> = Max (set (x # ys))"
    by (rule Max.set_eq_fold [symmetric])
  finally show ?thesis by simp
qed

subsection \<open>The batch\<close>

lemma align_sentence_lengths:
  "align_sentence tk nt tokens tags = (ids, tmask, atags) \<Longrightarrow>
     length tmask = length ids \<and> length atags = length ids"
proof -
  have w: "length (word_tag_mask xs) = length xs" "length (word_aligned_tags tag nt xs) = length xs"
    for xs tag
    by (cases xs; simp add: word_tag_mask_def word_aligned_tags_def)+
  assume "align_sentence tk nt tokens tags = (ids, tmask, atags)"
  then have ids: "ids = cls_token_id tk # concat (map (\<lambda>(tag, word). subword_ids tk word) (zip tags tokens)) @ [sep_token_id tk]"
    and tmask: "tmask = False # concat (map (\<lambda>(tag, word). word_tag_mask (subword_ids tk word)) (zip tags tokens)) @ [False]"
    and atags: "atags = nt # concat (map (\<lambda>(tag, word). word_aligned_tags tag nt (subword_ids tk word)) (zip tags tokens)) @ [nt]"
    by (simp_all add: align_sentence_closed)
  have "length (concat (map (\<lambda>(tag, word). word_tag_mask (subword_ids tk word)) ps))
        = length (concat (map (\<lambda>(tag, word). subword_ids tk word) ps))" for ps :: "(int \<times> string) list"
    by (induction ps) (auto simp: w)
  moreover have "length (concat (map (\<lambda>(tag, word). word_aligned_tags tag nt (subword_ids tk word)) ps))
        = length (concat (map (\<lambda>(tag, word). subword_ids tk word) ps))" for ps :: "(int \<times> string) list"
    by (induction ps) (auto simp: w)
  ultimately show ?thesis
    by (simp add: ids tmask atags)
qed

lemma align_batch_length: "length (align_batch tk nt tt tg) = min (length tt) (length tg)"
  by (simp add: align_batch_def)

lemma align_batch_nth:
  "i < length tt \<Longrightarrow> i < length tg \<Longrightarrow> align_batch tk nt tt tg ! i = align_sentence tk nt (tt ! i) (tg ! i)"
  by (simp add: align_batch_def)

lemma aligned_lists_empty:
  "tt = [] \<or> tg = [] \<Longrightarrow> aligned_lists tk tt tg nt = Inl ValueError"
  by (auto simp: aligned_lists_def align_batch_def)

lemma aligned_lists_nonempty:
  assumes "tt \<noteq> []" "tg \<noteq> []"
  shows "aligned_lists tk tt tg nt =
     Inr (map (\<lambda>(i, m, t, c). i) (map (pad_sentence tk nt (batch_max_len tk nt tt tg)) (align_batch tk nt tt tg)),
          map (\<lambda>(i, m, t, c). m) (map (pad_sentence tk nt (batch_max_len tk nt tt tg)) (align_batch tk nt tt tg)),
          map (\<lambda>(i, m, t, c). t) (map (pad_sentence tk nt (batch_max_len tk nt tt tg)) (align_batch tk nt tt tg)),
          map (\<lambda>(i, m, t, c). c) (map (pad_sentence tk nt (batch_max_len tk nt tt tg)) (align_batch tk nt tt tg)))"
proof -
  from assms obtain s ss where b: "align_batch tk nt tt tg = s # ss"
    by (cases tt; cases tg) (auto simp: align_batch_def)
  show ?thesis
    unfolding aligned_lists_def batch_max_len_def Let_def b
    by (simp only: list.map py_max_Cons sum.case)
qed

lemma batch_max_len_bounds:
  assumes "i < length tt" "i < length tg" "align_sentence tk nt (tt ! i) (tg ! i) = (ids, tmask, atags)"
  shows "length ids \<le> batch_max_len tk nt tt tg"
proof -
  have "align_batch tk nt tt tg ! i = (ids, tmask, atags)" "i < length (align_batch tk nt tt tg)"
    using assms by (simp_all add: align_batch_nth align_batch_length)
  then have "(ids, tmask, atags) \<in> set (align_batch tk nt tt tg)"
    by (metis nth_mem)
  then have "length ids \<in> set (map (\<lambda>(indexes, tag_mask, aligned_tags). length indexes) (align_batch tk nt tt tg))"
    by force
  then show ?thesis
    unfolding batch_max_len_def by (intro Max_ge) auto
qed


lemma aligned_lists_row:
  assumes r: "aligned_lists tk tt tg nt = Inr (ti, tm, at, tgm)"
  shows "tt \<noteq> []" "tg \<noteq> []"
    "length ti = min (length tt) (length tg)" "length tm = min (length tt) (length tg)"
    "length at = min (length tt) (length tg)" "length tgm = min (length tt) (length tg)"
    "i < length tt \<Longrightarrow> i < length tg \<Longrightarrow> align_sentence tk nt (tt ! i) (tg ! i) = (ids, tmask, atags) \<Longrightarrow>
       ti ! i = ids @ replicate (batch_max_len tk nt tt tg - length ids) (pad_token_id tk) \<and>
       tm ! i = replicate (length ids) 1 @ replicate (batch_max_len tk nt tt tg - length ids) 0 \<and>
       at ! i = atags @ replicate (batch_max_len tk nt tt tg - length ids) nt \<and>
       tgm ! i = tmask @ replicate (batch_max_len tk nt tt tg - length ids) False"
proof -
  show ne: "tt \<noteq> []" "tg \<noteq> []"
    using r aligned_lists_empty [of tt tg tk nt] by auto
  note eq = r [unfolded aligned_lists_nonempty [OF ne]]
  show "length ti = min (length tt) (length tg)" "length tm = min (length tt) (length tg)"
    "length at = min (length tt) (length tg)" "length tgm = min (length tt) (length tg)"
    using eq by (auto simp: align_batch_length)
  assume i: "i < length tt" "i < length tg"
    and s: "align_sentence tk nt (tt ! i) (tg ! i) = (ids, tmask, atags)"
  have "i < length (align_batch tk nt tt tg)" "align_batch tk nt tt tg ! i = (ids, tmask, atags)"
    using i s by (simp_all add: align_batch_length align_batch_nth)
  then show "ti ! i = ids @ replicate (batch_max_len tk nt tt tg - length ids) (pad_token_id tk) \<and>
       tm ! i = replicate (length ids) 1 @ replicate (batch_max_len tk nt tt tg - length ids) 0 \<and>
       at ! i = atags @ replicate (batch_max_len tk nt tt tg - length ids) nt \<and>
       tgm ! i = tmask @ replicate (batch_max_len tk nt tt tg - length ids) False"
    using eq by (auto simp: Let_def)
qed
subsection \<open>The return statement\<close>

lemma tensor_int64_Inr:
  "tensor_int64 rows = Inr r \<longleftrightarrow> r = rows \<and> list_all (list_all int64) rows"
  by (auto simp: tensor_int64_def)

lemma tensor_int64_Inl:
  "tensor_int64 rows = Inl e \<longleftrightarrow> e = TensorOverflow \<and> \<not> list_all (list_all int64) rows"
  by (auto simp: tensor_int64_def)

lemma return_tensors_eq:
  "return_tensors (ti, tm, at, tgm) =
     (if list_all (list_all int64) ti \<and> list_all (list_all int64) at
      then Inr (ti, tensor_bool_of_ints tm, at, tgm)
      else Inl TensorOverflow)"
  by (simp add: tensor_int64_def tensor_bool_def)

text \<open>
  When the function returns, the tensors hold the four lists: the ids, the tags and the tag
  masks as they are, the token masks with \<open>True\<close> for 1 and \<open>False\<close> for 0.
\<close>

lemma returned_tensors_are_the_lists:
  assumes "get_aligned_tokens_and_tags tk tt tg nt = Inr (ti, tmb, at, tgm)"
  shows "\<exists>tm. aligned_lists tk tt tg nt = Inr (ti, tm, at, tgm) \<and> tmb = tensor_bool_of_ints tm"
proof (cases "aligned_lists tk tt tg nt")
  case (Inl e)
  with assms show ?thesis
    by (simp add: get_aligned_tokens_and_tags_def)
next
  case (Inr built)
  obtain ti' tm' at' tgm' where l: "built = (ti', tm', at', tgm')"
    by (cases built)
  from assms have "return_tensors (ti', tm', at', tgm') = Inr (ti, tmb, at, tgm)"
    by (simp add: get_aligned_tokens_and_tags_def Inr l)
  then have "ti' = ti \<and> at' = at \<and> tgm' = tgm \<and> tmb = tensor_bool_of_ints tm'"
    unfolding return_tensors_eq by (simp split: if_splits)
  then show ?thesis
    using Inr l by simp
qed

lemma get_aligned_tokens_and_tags_empty:
  "tt = [] \<or> tg = [] \<Longrightarrow> get_aligned_tokens_and_tags tk tt tg nt = Inl ValueError"
  by (simp add: get_aligned_tokens_and_tags_def aligned_lists_empty)

lemma get_aligned_tokens_and_tags_via_lists:
  "aligned_lists tk tt' tg' nt = aligned_lists tk tt tg nt \<Longrightarrow>
     get_aligned_tokens_and_tags tk tt' tg' nt = get_aligned_tokens_and_tags tk tt tg nt"
  by (simp add: get_aligned_tokens_and_tags_def)

text \<open>The rows of each of the four lists have one length.\<close>

lemma aligned_lists_rectangular:
  assumes r: "aligned_lists tk tt tg nt = Inr (ti, tm, at, tgm)"
    and i: "i < length tt" "i < length tg"
  shows "length (ti ! i) = batch_max_len tk nt tt tg" "length (tm ! i) = batch_max_len tk nt tt tg"
    "length (at ! i) = batch_max_len tk nt tt tg" "length (tgm ! i) = batch_max_len tk nt tt tg"
proof -
  obtain ids tmask atags where s: "align_sentence tk nt (tt ! i) (tg ! i) = (ids, tmask, atags)"
    by (cases "align_sentence tk nt (tt ! i) (tg ! i)")
  note row = aligned_lists_row(7) [OF r i s]
  note len = align_sentence_lengths [OF s]
  note le = batch_max_len_bounds [OF i s]
  show "length (ti ! i) = batch_max_len tk nt tt tg" "length (tm ! i) = batch_max_len tk nt tt tg"
    "length (at ! i) = batch_max_len tk nt tt tg" "length (tgm ! i) = batch_max_len tk nt tt tg"
    using row len le by simp_all
qed

subsection \<open>Integers that fit the tensors\<close>

lemma list_all_int64_subwords:
  "list_all (\<lambda>(tag, word). int64 tag \<and> list_all int64 (subword_ids tk word)) ps \<Longrightarrow>
     list_all int64 (concat (map (\<lambda>(tag, word). subword_ids tk word) ps))"
  by (induction ps) auto

lemma list_all_int64_word_aligned_tags:
  "int64 tag \<Longrightarrow> int64 nt \<Longrightarrow> list_all int64 (word_aligned_tags tag nt ids)"
  by (cases ids) (simp_all add: word_aligned_tags_def list_all_iff)

lemma list_all_int64_tags:
  "int64 nt \<Longrightarrow>
   list_all (\<lambda>(tag, word). int64 tag \<and> list_all int64 (subword_ids tk word)) ps \<Longrightarrow>
     list_all int64 (concat (map (\<lambda>(tag, word). word_aligned_tags tag nt (subword_ids tk word)) ps))"
  by (induction ps) (auto simp: list_all_int64_word_aligned_tags)

lemma aligned_lists_fit:
  assumes r: "aligned_lists tk tt tg nt = Inr (ti, tm, at, tgm)"
    and fit: "values_fit_int64 tk tt tg nt"
  shows "list_all (list_all int64) ti" "list_all (list_all int64) at"
proof -
  have row: "list_all int64 (ti ! i) \<and> list_all int64 (at ! i)"
    if i: "i < length tt" "i < length tg" for i
  proof -
    obtain ids tmask atags where s: "align_sentence tk nt (tt ! i) (tg ! i) = (ids, tmask, atags)"
      by (cases "align_sentence tk nt (tt ! i) (tg ! i)")
    have "(tt ! i, tg ! i) \<in> set (zip tt tg)"
      using i by (auto simp: set_zip)
    with fit have ps: "list_all (\<lambda>(tag, word). int64 tag \<and> list_all int64 (subword_ids tk word))
        (zip (tg ! i) (tt ! i))"
      unfolding values_fit_int64_def list_all_iff by blast
    from fit have m: "int64 (cls_token_id tk)" "int64 (sep_token_id tk)" "int64 (pad_token_id tk)"
      "int64 nt"
      by (simp_all add: values_fit_int64_def)
    from s have ids: "list_all int64 ids" and atags: "list_all int64 atags"
      using m list_all_int64_subwords [OF ps] list_all_int64_tags [OF m(4) ps]
      by (auto simp: align_sentence_closed)
    from aligned_lists_row(7) [OF r i s] ids atags m show ?thesis
      by (simp add: list_all_length nth_append)
  qed
  have "length ti = min (length tt) (length tg)" "length at = min (length tt) (length tg)"
    using aligned_lists_row(3,5) [OF r] by simp_all
  with row show "list_all (list_all int64) ti" "list_all (list_all int64) at"
    by (simp_all add: list_all_length)
qed

lemma get_aligned_tokens_and_tags_returns:
  assumes ne: "tt \<noteq> []" "tg \<noteq> []" and fit: "values_fit_int64 tk tt tg nt"
  shows "\<exists>ti tm at tgm. get_aligned_tokens_and_tags tk tt tg nt = Inr (ti, tm, at, tgm)"
proof -
  from aligned_lists_nonempty [OF ne, of tk nt]
  obtain ti tm at tgm where r: "aligned_lists tk tt tg nt = Inr (ti, tm, at, tgm)"
    by blast
  from aligned_lists_fit [OF r fit] show ?thesis
    by (simp add: get_aligned_tokens_and_tags_def r return_tensors_eq del: return_tensors.simps)
qed

lemma get_aligned_tokens_and_tags_raises:
  assumes "get_aligned_tokens_and_tags tk tt tg nt = Inl e"
  shows "(e = ValueError \<and> (tt = [] \<or> tg = [])) \<or>
         (e = TensorOverflow \<and> tt \<noteq> [] \<and> tg \<noteq> [] \<and> \<not> values_fit_int64 tk tt tg nt)"
proof (cases "tt = [] \<or> tg = []")
  case True
  with assms get_aligned_tokens_and_tags_empty [of tt tg tk nt] show ?thesis
    by simp
next
  case False
  then have ne: "tt \<noteq> []" "tg \<noteq> []"
    by simp_all
  from aligned_lists_nonempty [OF ne, of tk nt]
  obtain ti tm at tgm where r: "aligned_lists tk tt tg nt = Inr (ti, tm, at, tgm)"
    by blast
  from assms have e: "e = TensorOverflow"
    by (simp add: get_aligned_tokens_and_tags_def r return_tensors_eq del: return_tensors.simps
        split: if_splits)
  have "\<not> values_fit_int64 tk tt tg nt"
    using get_aligned_tokens_and_tags_returns [OF ne, of tk nt] assms by auto
  with e ne show ?thesis
    by simp
qed

text \<open>
  The theorems below on the contents of the four outputs are stated for the four lists that
  the function has built when it reaches its \<open>return\<close> statement, the value of
  \<open>aligned_lists\<close>. By \<open>returned_tensors_are_the_lists\<close> they are the contents of the
  returned tensors whenever the function returns, and by
  \<open>get_aligned_tokens_and_tags_returns\<close> it returns for every batch that is not empty and
  whose integers fit.
\<close>


subsection \<open>The result depends on the zipped pairs only\<close>

lemma aligned_lists_via_batch:
  "align_batch tk nt tt' tg' = align_batch tk nt tt tg \<Longrightarrow>
     aligned_lists tk tt' tg' nt = aligned_lists tk tt tg nt"
  by (simp add: aligned_lists_def)

lemma align_sentence_via_zip:
  "zip tags' tokens' = zip tags tokens \<Longrightarrow>
     align_sentence tk nt tokens' tags' = align_sentence tk nt tokens tags"
  by (simp add: align_sentence_def)

lemma zip_take_lengths: "zip (take (length ys) xs) (take (length xs) ys) = zip xs ys"
  by (induction xs ys rule: list_induct2') simp_all

lemma align_batch_map:
  assumes "\<And>tokens tags. align_sentence tk nt (f tokens tags) (g tokens tags) = align_sentence tk nt tokens tags"
  shows "align_batch tk nt (map (\<lambda>(tokens, tags). f tokens tags) (zip tt tg))
           (map (\<lambda>(tokens, tags). g tokens tags) (zip tt tg)) = align_batch tk nt tt tg"
proof -
  have "zip (map (\<lambda>(tokens, tags). f tokens tags) (zip tt tg)) (map (\<lambda>(tokens, tags). g tokens tags) (zip tt tg))
      = map (\<lambda>(tokens, tags). (f tokens tags, g tokens tags)) (zip tt tg)"
    by (simp add: zip_map_map zip_same_conv_map case_prod_unfold)
  then show ?thesis
    unfolding align_batch_def by (simp add: case_prod_unfold assms)
qed
subsection \<open>Words and tags of different lengths\<close>

text \<open>
  A sentence with two words and one tag: the aligner returns its four tensors, and the
  second word is not in them.
\<close>

theorem length_mismatch_not_reported_counterexample:
  "length [''I'', ''like''] \<noteq> length [1 :: int] \<and>
   get_aligned_tokens_and_tags example_tokeniser [[''I'', ''like'']] [[1]] 0 =
     Inr ([[101, 1045, 102]], [[True, True, True]], [[0, 1, 0]], [[False, True, False]])"
  by code_simp

text \<open>
  Claim C1, amended. The aligner does not report a sentence whose words and tags differ in
  length: it pairs words and tags by position up to the end of the shorter sequence, so its
  four lists and the outcome of the call, the returned tensors or the exception, are those
  for the batch in which the longer sequence of every sentence is cut to the length of the
  shorter one;
  and it returns a result for every batch that is not empty and whose ids and tags fit the
  64-bit integers of the returned tensors.
\<close>

theorem length_mismatch_zips_to_shorter:
  "aligned_lists tk text_tokens text_tags no_tag =
     aligned_lists tk
       (map (\<lambda>(tokens, tags). take (length tags) tokens) (zip text_tokens text_tags))
       (map (\<lambda>(tokens, tags). take (length tokens) tags) (zip text_tokens text_tags)) no_tag \<and>
   get_aligned_tokens_and_tags tk text_tokens text_tags no_tag =
     get_aligned_tokens_and_tags tk
       (map (\<lambda>(tokens, tags). take (length tags) tokens) (zip text_tokens text_tags))
       (map (\<lambda>(tokens, tags). take (length tokens) tags) (zip text_tokens text_tags)) no_tag \<and>
   (text_tokens \<noteq> [] \<and> text_tags \<noteq> [] \<and> values_fit_int64 tk text_tokens text_tags no_tag \<longrightarrow>
      (\<exists>r. get_aligned_tokens_and_tags tk text_tokens text_tags no_tag = Inr r))"
proof -
  have "align_sentence tk no_tag (take (length tags) tokens) (take (length tokens) tags) =
        align_sentence tk no_tag tokens tags" for tokens tags
    by (rule align_sentence_via_zip) (rule zip_take_lengths)
  then have "align_batch tk no_tag
       (map (\<lambda>(tokens, tags). take (length tags) tokens) (zip text_tokens text_tags))
       (map (\<lambda>(tokens, tags). take (length tokens) tags) (zip text_tokens text_tags)) =
     align_batch tk no_tag text_tokens text_tags"
    by (rule align_batch_map)
  then have l: "aligned_lists tk
       (map (\<lambda>(tokens, tags). take (length tags) tokens) (zip text_tokens text_tags))
       (map (\<lambda>(tokens, tags). take (length tokens) tags) (zip text_tokens text_tags)) no_tag =
     aligned_lists tk text_tokens text_tags no_tag"
    by (rule aligned_lists_via_batch)
  then have f: "get_aligned_tokens_and_tags tk
       (map (\<lambda>(tokens, tags). take (length tags) tokens) (zip text_tokens text_tags))
       (map (\<lambda>(tokens, tags). take (length tokens) tags) (zip text_tokens text_tags)) no_tag =
     get_aligned_tokens_and_tags tk text_tokens text_tags no_tag"
    by (rule get_aligned_tokens_and_tags_via_lists)
  have r: "text_tokens \<noteq> [] \<and> text_tags \<noteq> [] \<and> values_fit_int64 tk text_tokens text_tags no_tag \<longrightarrow>
      (\<exists>r. get_aligned_tokens_and_tags tk text_tokens text_tags no_tag = Inr r)"
    using get_aligned_tokens_and_tags_returns [of text_tokens text_tags tk no_tag] by blast
  from l [symmetric] f [symmetric] r show ?thesis
    by (intro conjI)
qed

text \<open>
  A batch of two sentences, one with a word too many and one with a tag too many.
\<close>

theorem length_mismatch_zips_to_shorter_witness:
  "[[''I'', ''like''], [''it'']] \<noteq> [] \<and> [[1], [4, 5 :: int]] \<noteq> [] \<and>
   values_fit_int64 example_tokeniser [[''I'', ''like''], [''it'']] [[1], [4, 5]] 0 \<and>
   get_aligned_tokens_and_tags example_tokeniser [[''I'', ''like''], [''it'']] [[1], [4, 5]] 0 =
     get_aligned_tokens_and_tags example_tokeniser [[''I''], [''it'']] [[1], [4]] 0 \<and>
   (\<exists>r. get_aligned_tokens_and_tags example_tokeniser [[''I'', ''like''], [''it'']] [[1], [4, 5]] 0 = Inr r)"
proof -
  let ?tt = "[[''I'', ''like''], [''it'']]"
  let ?tg = "[[1], [4, 5 :: int]]"
  have h: "?tt \<noteq> []" "?tg \<noteq> []"
    by simp_all
  have fit: "values_fit_int64 example_tokeniser ?tt ?tg 0"
    by code_simp
  note t = length_mismatch_zips_to_shorter [of example_tokeniser ?tt ?tg 0]
  from t have "get_aligned_tokens_and_tags example_tokeniser ?tt ?tg 0 =
     get_aligned_tokens_and_tags example_tokeniser [[''I''], [''it'']] [[1], [4]] 0"
    by simp
  moreover from t h fit have "\<exists>r. get_aligned_tokens_and_tags example_tokeniser ?tt ?tg 0 = Inr r"
    by blast
  ultimately show ?thesis
    using h fit by (intro conjI)
qed


subsection \<open>Words without subword ids\<close>

lemma concat_map_filter_nonempty:
  "concat (map f (filter (\<lambda>p. g p \<noteq> []) ps)) = concat (map f ps)" if "\<And>p. g p = [] \<Longrightarrow> f p = []"
  by (induction ps) (simp_all add: that)

lemma align_sentence_tokenised_pairs:
  "align_sentence tk nt (map snd (tokenised_pairs tk tokens tags)) (map fst (tokenised_pairs tk tokens tags))
     = align_sentence tk nt tokens tags"
proof -
  let ?g = "\<lambda>p :: int \<times> string. subword_ids tk (snd p)"
  have tp: "tokenised_pairs tk tokens tags = filter (\<lambda>p. ?g p \<noteq> []) (zip tags tokens)"
    by (simp add: tokenised_pairs_def case_prod_unfold)
  have z: "zip (map fst (tokenised_pairs tk tokens tags)) (map snd (tokenised_pairs tk tokens tags))
         = tokenised_pairs tk tokens tags"
    by (rule zip_map_fst_snd)
  have 1: "concat (map (\<lambda>(tag, word). subword_ids tk word) (filter (\<lambda>p. ?g p \<noteq> []) (zip tags tokens)))
         = concat (map (\<lambda>(tag, word). subword_ids tk word) (zip tags tokens))"
    by (rule concat_map_filter_nonempty) (simp add: case_prod_unfold)
  have 2: "concat (map (\<lambda>(tag, word). word_tag_mask (subword_ids tk word)) (filter (\<lambda>p. ?g p \<noteq> []) (zip tags tokens)))
         = concat (map (\<lambda>(tag, word). word_tag_mask (subword_ids tk word)) (zip tags tokens))"
    by (rule concat_map_filter_nonempty) (simp add: case_prod_unfold word_tag_mask_def)
  have 3: "concat (map (\<lambda>(tag, word). word_aligned_tags tag nt (subword_ids tk word)) (filter (\<lambda>p. ?g p \<noteq> []) (zip tags tokens)))
         = concat (map (\<lambda>(tag, word). word_aligned_tags tag nt (subword_ids tk word)) (zip tags tokens))"
    by (rule concat_map_filter_nonempty) (simp add: case_prod_unfold word_aligned_tags_def)
  show ?thesis
    unfolding align_sentence_closed z unfolding tp 1 2 3 by (rule refl)
qed

text \<open>
  A sentence whose only word is the empty word, with the tag 3: the aligner builds and
  returns the two marker positions, no position carries a tag and the tag 3 is not in the
  aligned tags.
\<close>

theorem empty_tokenisation_drops_tag_counterexample:
  "subword_ids example_tokeniser [] = [] \<and>
   aligned_lists example_tokeniser [[[]]] [[3]] 0 =
     Inr ([[101, 102]], [[1, 1]], [[0, 0]], [[False, False]]) \<and>
   get_aligned_tokens_and_tags example_tokeniser [[[]]] [[3]] 0 =
     Inr ([[101, 102]], [[True, True]], [[0, 0]], [[False, False]])"
  by code_simp

text \<open>
  Claim C2, amended. A word for which the tokeniser gives no subword id contributes no
  position to any of the four outputs, neither an error nor a placeholder stands for it, and
  its tag is dropped: the four lists, and with them the outcome of the call, are those for
  the batch from which every such pair of a word and its tag is removed.
\<close>

theorem empty_tokenisation_contributes_nothing:
  "aligned_lists tk text_tokens text_tags no_tag =
     aligned_lists tk
       (map (\<lambda>(tokens, tags). map snd (tokenised_pairs tk tokens tags)) (zip text_tokens text_tags))
       (map (\<lambda>(tokens, tags). map fst (tokenised_pairs tk tokens tags)) (zip text_tokens text_tags))
       no_tag \<and>
   get_aligned_tokens_and_tags tk text_tokens text_tags no_tag =
     get_aligned_tokens_and_tags tk
       (map (\<lambda>(tokens, tags). map snd (tokenised_pairs tk tokens tags)) (zip text_tokens text_tags))
       (map (\<lambda>(tokens, tags). map fst (tokenised_pairs tk tokens tags)) (zip text_tokens text_tags))
       no_tag"
proof -
  have "align_batch tk no_tag
       (map (\<lambda>(tokens, tags). map snd (tokenised_pairs tk tokens tags)) (zip text_tokens text_tags))
       (map (\<lambda>(tokens, tags). map fst (tokenised_pairs tk tokens tags)) (zip text_tokens text_tags)) =
     align_batch tk no_tag text_tokens text_tags"
    by (rule align_batch_map) (rule align_sentence_tokenised_pairs)
  then have l: "aligned_lists tk
       (map (\<lambda>(tokens, tags). map snd (tokenised_pairs tk tokens tags)) (zip text_tokens text_tags))
       (map (\<lambda>(tokens, tags). map fst (tokenised_pairs tk tokens tags)) (zip text_tokens text_tags))
       no_tag = aligned_lists tk text_tokens text_tags no_tag"
    by (rule aligned_lists_via_batch)
  then have f: "get_aligned_tokens_and_tags tk
       (map (\<lambda>(tokens, tags). map snd (tokenised_pairs tk tokens tags)) (zip text_tokens text_tags))
       (map (\<lambda>(tokens, tags). map fst (tokenised_pairs tk tokens tags)) (zip text_tokens text_tags))
       no_tag = get_aligned_tokens_and_tags tk text_tokens text_tags no_tag"
    by (rule get_aligned_tokens_and_tags_via_lists)
  from l [symmetric] f [symmetric] show ?thesis
    by (intro conjI)
qed

subsection \<open>The number of tag-carrying positions\<close>

lemma count_word_tag_masks:
  "length (filter (\<lambda>b. b) (concat (map (\<lambda>(tag, word). word_tag_mask (subword_ids tk word)) ps)))
     = length (filter (\<lambda>(tag, word). subword_ids tk word \<noteq> []) ps)"
proof (induction ps)
  case Nil
  show ?case by simp
next
  case (Cons p ps)
  obtain tag word where p: "p = (tag, word)" by (cases p)
  show ?case
    using Cons by (cases "subword_ids tk word") (simp_all add: p word_tag_mask_def)
qed

text \<open>
  A sentence of two words and two tags whose second word is the empty word: one position
  of the tag mask is \<open>True\<close>, in the list and in the returned tensor, and the sentence
  has two pairs.
\<close>

theorem tag_carrier_count_counterexample:
  "length [''I'', []] = length [1, 2 :: int] \<and>
   aligned_lists example_tokeniser [[''I'', []]] [[1, 2]] 0 =
     Inr ([[101, 1045, 102]], [[1, 1, 1]], [[0, 1, 0]], [[False, True, False]]) \<and>
   get_aligned_tokens_and_tags example_tokeniser [[''I'', []]] [[1, 2]] 0 =
     Inr ([[101, 1045, 102]], [[True, True, True]], [[0, 1, 0]], [[False, True, False]]) \<and>
   length (filter (\<lambda>b. b) [False, True, False]) \<noteq> length (zip [''I'', []] [1, 2 :: int])"
  by code_simp

text \<open>
  Claim C3, amended. The number of \<open>True\<close> entries of a sentence's row of the tag mask,
  padding included, is the number of pairs of the sentence whose word has at least one
  subword id; for a sentence whose words and tags have equal length and whose words all
  have at least one subword id it is the number of pairs of the sentence.
\<close>

theorem tag_carrier_count:
  assumes "aligned_lists tk text_tokens text_tags no_tag = Inr (ti, tm, at, tgm)"
    and "s < length tgm"
  shows "length (filter (\<lambda>b. b) (tgm ! s)) =
           length (tokenised_pairs tk (text_tokens ! s) (text_tags ! s)) \<and>
         (length (text_tokens ! s) = length (text_tags ! s) \<and>
          (\<forall>word \<in> set (text_tokens ! s). subword_ids tk word \<noteq> []) \<longrightarrow>
            length (filter (\<lambda>b. b) (tgm ! s)) = length (text_tokens ! s))"
proof -
  have s: "s < length text_tokens" "s < length text_tags"
    using assms(2) aligned_lists_row(6) [OF assms(1)] by simp_all
  obtain ids tmask atags where
    a: "align_sentence tk no_tag (text_tokens ! s) (text_tags ! s) = (ids, tmask, atags)"
    by (cases "align_sentence tk no_tag (text_tokens ! s) (text_tags ! s)")
  have tmask: "tmask = False # concat (map (\<lambda>(tag, word). word_tag_mask (subword_ids tk word))
                  (zip (text_tags ! s) (text_tokens ! s))) @ [False]"
    using a by (simp add: align_sentence_closed)
  have row: "tgm ! s = tmask @ replicate (batch_max_len tk no_tag text_tokens text_tags - length ids) False"
    using aligned_lists_row(7) [OF assms(1) s a] by simp
  have count: "length (filter (\<lambda>b. b) (tgm ! s)) =
           length (tokenised_pairs tk (text_tokens ! s) (text_tags ! s))"
    unfolding row tmask tokenised_pairs_def
    by (simp add: count_word_tag_masks)
  have "length (tokenised_pairs tk (text_tokens ! s) (text_tags ! s)) = length (text_tokens ! s)"
    if eq: "length (text_tokens ! s) = length (text_tags ! s)"
      and ne: "\<forall>word \<in> set (text_tokens ! s). subword_ids tk word \<noteq> []"
  proof -
    have "filter (\<lambda>(tag, word). subword_ids tk word \<noteq> []) (zip (text_tags ! s) (text_tokens ! s))
        = zip (text_tags ! s) (text_tokens ! s)"
      using ne by (auto simp: filter_id_conv dest: set_zip_rightD)
    then show ?thesis
      by (simp add: tokenised_pairs_def eq)
  qed
  with count show ?thesis
    by simp
qed

text \<open>
  A batch with both kinds of sentence.
\<close>

theorem tag_carrier_count_witness:
  "aligned_lists example_tokeniser [[''I'', []], [''it'', ''.'']] [[1, 2], [4, 5]] 0 =
     Inr ([[101, 1045, 102, 0], [101, 2009, 1012, 102]],
          [[1, 1, 1, 0], [1, 1, 1, 1]],
          [[0, 1, 0, 0], [0, 4, 5, 0]],
          [[False, True, False, False], [False, True, True, False]]) \<and>
   length (filter (\<lambda>b. b) [False, True, False, False]) =
     length (tokenised_pairs example_tokeniser [''I'', []] [1, 2]) \<and>
   length [''it'', ''.''] = length [4, 5 :: int] \<and>
   list_all (\<lambda>word. subword_ids example_tokeniser word \<noteq> []) [''it'', ''.''] \<and>
   length (filter (\<lambda>b. b) [False, True, True, False]) = length [''it'', ''.'']"
proof -
  let ?tt = "[[''I'', []], [''it'', ''.'']]"
  let ?tg = "[[1, 2], [4, 5 :: int]]"
  let ?tgm = "[[False, True, False, False], [False, True, True, False]]"
  have r: "aligned_lists example_tokeniser ?tt ?tg 0 =
     Inr ([[101, 1045, 102, 0], [101, 2009, 1012, 102]],
          [[1, 1, 1, 0], [1, 1, 1, 1]],
          [[0, 1, 0, 0], [0, 4, 5, 0]], ?tgm)"
    by code_simp
  have s0: "(0 :: nat) < length ?tgm" and s1: "(1 :: nat) < length ?tgm"
    by simp_all
  have eq: "length [''it'', ''.''] = length [4, 5 :: int]"
    by simp
  have all: "list_all (\<lambda>word. subword_ids example_tokeniser word \<noteq> []) [''it'', ''.'']"
    by code_simp
  from tag_carrier_count [OF r s0]
  have c0: "length (filter (\<lambda>b. b) [False, True, False, False]) =
     length (tokenised_pairs example_tokeniser [''I'', []] [1, 2])"
    by simp
  from tag_carrier_count [OF r s1] eq all
  have c1: "length (filter (\<lambda>b. b) [False, True, True, False]) = length [''it'', ''.'']"
    by (simp add: list_all_iff)
  from r c0 eq all c1 show ?thesis
    by (intro conjI)
qed

subsection \<open>The order of the emitted positions\<close>






subsection \<open>Padding\<close>



subsection \<open>The two masks\<close>



subsection \<open>The ids of one word\<close>




subsection \<open>When the aligner returns\<close>

text \<open>
  The empty batch: \<open>max\<close> is applied to an empty sequence.
\<close>

theorem empty_batch_raises_counterexample:
  "get_aligned_tokens_and_tags example_tokeniser [] [] 0 = Inl ValueError"
  by code_simp

text \<open>
  Claim C7, amended. For a batch with no sentence the aligner raises \<open>ValueError\<close>; the
  batch is the list of pairs of the zip of the two arguments, so it is empty when either
  argument is. For every batch that is not empty and whose ids and tags fit the 64-bit
  integers of the returned tensors it returns its four outputs, whatever the lengths of the
  words and tags of its sentences and whatever the tokeniser gives for a word. It raises
  in no other case than these two: for the empty batch, and in the tensor constructor for a
  batch with an id or a tag that does not fit.
\<close>

theorem returns_unless_empty_or_overflow:
  "(text_tokens = [] \<or> text_tags = [] \<longrightarrow>
      get_aligned_tokens_and_tags tk text_tokens text_tags no_tag = Inl ValueError) \<and>
   (text_tokens \<noteq> [] \<and> text_tags \<noteq> [] \<and> values_fit_int64 tk text_tokens text_tags no_tag \<longrightarrow>
      (\<exists>ti tm at tgm. get_aligned_tokens_and_tags tk text_tokens text_tags no_tag = Inr (ti, tm, at, tgm))) \<and>
   (\<forall>e. get_aligned_tokens_and_tags tk text_tokens text_tags no_tag = Inl e \<longrightarrow>
      (e = ValueError \<and> (text_tokens = [] \<or> text_tags = [])) \<or>
      (e = TensorOverflow \<and> text_tokens \<noteq> [] \<and> text_tags \<noteq> [] \<and>
       \<not> values_fit_int64 tk text_tokens text_tags no_tag))"
  using get_aligned_tokens_and_tags_empty [of text_tokens text_tags tk no_tag]
    get_aligned_tokens_and_tags_returns [of text_tokens text_tags tk no_tag]
    get_aligned_tokens_and_tags_raises [of tk text_tokens text_tags no_tag]
  by blast

text \<open>
  A batch of one sentence, a batch whose list of tag sequences is empty, and a batch of one
  sentence whose tag is \<open>2 ^ 63\<close>.
\<close>

theorem returns_unless_empty_or_overflow_witness:
  "[[''I'']] \<noteq> [] \<and> [[1 :: int]] \<noteq> [] \<and> values_fit_int64 example_tokeniser [[''I'']] [[1]] 0 \<and>
   (\<exists>ti tm at tgm. get_aligned_tokens_and_tags example_tokeniser [[''I'']] [[1]] 0 = Inr (ti, tm, at, tgm)) \<and>
   get_aligned_tokens_and_tags example_tokeniser [[''I'']] [] 0 = Inl ValueError \<and>
   get_aligned_tokens_and_tags example_tokeniser [[''I'']] [[2 ^ 63]] 0 = Inl TensorOverflow \<and>
   \<not> values_fit_int64 example_tokeniser [[''I'']] [[2 ^ 63]] 0"
proof -
  have h: "[[''I'']] \<noteq> []" "[[1 :: int]] \<noteq> []"
    by simp_all
  have fit: "values_fit_int64 example_tokeniser [[''I'']] [[1]] 0"
    by code_simp
  have over: "get_aligned_tokens_and_tags example_tokeniser [[''I'']] [[2 ^ 63]] 0 = Inl TensorOverflow"
    by code_simp
  from returns_unless_empty_or_overflow [of "[[''I'']]" "[[1]]" example_tokeniser 0] h fit
  have "\<exists>ti tm at tgm. get_aligned_tokens_and_tags example_tokeniser [[''I'']] [[1]] 0 = Inr (ti, tm, at, tgm)"
    by blast
  moreover from returns_unless_empty_or_overflow [of "[[''I'']]" "[]" example_tokeniser 0]
  have "get_aligned_tokens_and_tags example_tokeniser [[''I'']] [] 0 = Inl ValueError"
    by blast
  moreover from returns_unless_empty_or_overflow [of "[[''I'']]" "[[2 ^ 63]]" example_tokeniser 0] over
  have "\<not> values_fit_int64 example_tokeniser [[''I'']] [[2 ^ 63]] 0"
    by blast
  ultimately show ?thesis
    using h fit over by (intro conjI)
qed


section \<open>Properties of the aligner on the store\<close>

subsection \<open>The loops on the store compute the lists of the aligner\<close>

lemma lim_list_extend [simp]: "lim (list_extend a vs h) = lim h"
  by (simp add: list_extend_def)

lemma objects_list_extend [simp]:
  "objects (list_extend a vs h) b = (if b = a then objects h a @ vs else objects h b)"
  by (simp add: list_extend_def)

lemma lim_list_append [simp]: "lim (list_append a v h) = lim h"
  by (simp add: list_append_def)

lemma objects_list_append [simp]:
  "objects (list_append a v h) b = (if b = a then objects h a @ [v] else objects h b)"
  by (simp add: list_append_def)

lemma list_at_Some_iff: "list_at h v = Some xs \<longleftrightarrow> (\<exists>a. v = PyRef a \<and> a < lim h \<and> objects h a = xs)"
  by (cases v) (auto simp: list_at_def)

lemma store_append_subword_sim:
  assumes "ia \<noteq> ma" "ia \<noteq> ta" "ma \<noteq> ta" "locals_hold h (ia, ma, ta) acc"
  shows "locals_hold (store_append_subword (PyInt tag) nt (ia, ma, ta) h p) (ia, ma, ta)
           (append_subword tag nt acc p) \<and>
         lim (store_append_subword (PyInt tag) nt (ia, ma, ta) h p) = lim h \<and>
         (\<forall>b. b \<notin> {ia, ma, ta} \<longrightarrow>
            objects (store_append_subword (PyInt tag) nt (ia, ma, ta) h p) b = objects h b)"
  using assms by (cases p; cases acc) (auto simp: locals_hold_def Let_def)

lemma store_fold_subwords_sim:
  assumes "ia \<noteq> ma" "ia \<noteq> ta" "ma \<noteq> ta" "locals_hold h (ia, ma, ta) acc"
  shows "locals_hold (foldl (store_append_subword (PyInt tag) nt (ia, ma, ta)) h ps) (ia, ma, ta)
           (foldl (append_subword tag nt) acc ps) \<and>
         lim (foldl (store_append_subword (PyInt tag) nt (ia, ma, ta)) h ps) = lim h \<and>
         (\<forall>b. b \<notin> {ia, ma, ta} \<longrightarrow>
            objects (foldl (store_append_subword (PyInt tag) nt (ia, ma, ta)) h ps) b = objects h b)"
  using assms(4)
proof (induction ps arbitrary: h acc)
  case Nil
  then show ?case by simp
next
  case (Cons p ps)
  note step = store_append_subword_sim [OF assms(1-3) Cons.prems, of tag nt p]
  from step have "locals_hold (store_append_subword (PyInt tag) nt (ia, ma, ta) h p) (ia, ma, ta)
           (append_subword tag nt acc p)"
    by simp
  from Cons.IH [OF this] step show ?case
    by simp
qed

lemma store_add_word_sim:
  assumes "ia \<noteq> ma" "ia \<noteq> ta" "ma \<noteq> ta" "locals_hold h (ia, ma, ta) acc"
  shows "locals_hold (store_add_word tk nt (ia, ma, ta) h (PyInt tag) word) (ia, ma, ta)
           (add_word tk nt acc (tag, word)) \<and>
         lim (store_add_word tk nt (ia, ma, ta) h (PyInt tag) word) = lim h \<and>
         (\<forall>b. b \<notin> {ia, ma, ta} \<longrightarrow>
            objects (store_add_word tk nt (ia, ma, ta) h (PyInt tag) word) b = objects h b)"
  unfolding store_add_word_def add_word.simps
  by (rule store_fold_subwords_sim [OF assms])

lemma store_word_loop_sim:
  assumes d: "ia \<noteq> ma" "ia \<noteq> ta" "ma \<noteq> ta"
    and g: "tags = PyRef g" "g \<notin> {ia, ma, ta}" "g < lim h" "objects h g = map PyInt ts"
    and w: "tokens = PyRef w" "w \<notin> {ia, ma, ta}" "w < lim h" "objects h w = map PyStr words"
    and l: "locals_hold h (ia, ma, ta) acc"
  shows "\<exists>h'. store_word_loop tk nt tags tokens (ia, ma, ta) k h = Some (None, h') \<and>
           lim h' = lim h \<and>
           locals_hold h' (ia, ma, ta) (foldl (add_word tk nt) acc (drop k (zip ts words))) \<and>
           (\<forall>b. b \<notin> {ia, ma, ta} \<longrightarrow> objects h' b = objects h b)"
  using g(3,4) w(3,4) l
proof (induction "length (zip ts words) - k" arbitrary: k h acc)
  case 0
  then have "\<not> (k < length ts \<and> k < length words)"
    by auto
  then have "store_word_loop tk nt tags tokens (ia, ma, ta) k h = Some (None, h)"
    using 0 by (subst store_word_loop.simps) (auto simp: list_at_def g(1) w(1))
  moreover have "drop k (zip ts words) = []"
    using 0 by simp
  ultimately show ?case
    using 0 by simp
next
  case (Suc n)
  then have k: "k < length ts" "k < length words"
    by simp_all
  let ?h1 = "store_add_word tk nt (ia, ma, ta) h (PyInt (ts ! k)) (words ! k)"
  note step = store_add_word_sim [OF d Suc.prems(5), of tk nt "ts ! k" "words ! k"]
  have unf: "store_word_loop tk nt tags tokens (ia, ma, ta) k h =
             store_word_loop tk nt tags tokens (ia, ma, ta) (Suc k) ?h1"
    using k Suc.prems by (subst store_word_loop.simps) (simp add: list_at_def g(1) w(1))
  have n: "n = length (zip ts words) - Suc k"
    using Suc.hyps(2) by simp
  have p1: "g < lim ?h1" "objects ?h1 g = map PyInt ts" "w < lim ?h1" "objects ?h1 w = map PyStr words"
    using step g(2) w(2) Suc.prems by simp_all
  have l1: "locals_hold ?h1 (ia, ma, ta) (add_word tk nt acc (ts ! k, words ! k))"
    using step by simp
  from Suc.hyps(1) [OF n p1 l1] obtain h' where
    h': "store_word_loop tk nt tags tokens (ia, ma, ta) (Suc k) ?h1 = Some (None, h')"
      "lim h' = lim ?h1"
      "locals_hold h' (ia, ma, ta)
         (foldl (add_word tk nt) (add_word tk nt acc (ts ! k, words ! k)) (drop (Suc k) (zip ts words)))"
      "\<forall>b. b \<notin> {ia, ma, ta} \<longrightarrow> objects h' b = objects ?h1 b"
    by blast
  have dr: "drop k (zip ts words) = (ts ! k, words ! k) # drop (Suc k) (zip ts words)"
    using k by (simp add: Cons_nth_drop_Suc [symmetric])
  show ?case
    using h' step unf by (intro exI [of _ h']) (simp add: dr)
qed

lemma fst_alloc [simp]: "fst (alloc xs h) = lim h"
  by (simp add: alloc_def)

lemma lim_alloc [simp]: "lim (snd (alloc xs h)) = Suc (lim h)"
  by (simp add: alloc_def)

lemma objects_alloc [simp]: "objects (snd (alloc xs h)) b = (if b = lim h then xs else objects h b)"
  by (simp add: alloc_def)

lemma store_align_sentence_sim:
  assumes t: "t1 \<noteq> t2" "t1 \<noteq> t3" "t2 \<noteq> t3" "t1 < lim h" "t2 < lim h" "t3 < lim h"
    and g: "tags = PyRef g" "g \<notin> {t1, t2, t3}" "g < lim h" "objects h g = map PyInt ts"
    and w: "tokens = PyRef w" "w \<notin> {t1, t2, t3}" "w < lim h" "objects h w = map PyStr words"
  shows "\<exists>h'. store_align_sentence tk nt (t1, t2, t3) tokens tags h = Some (None, h') \<and>
           lim h' = lim h + 3 \<and>
           locals_hold h' (lim h, Suc (lim h), Suc (Suc (lim h))) (align_sentence tk nt words ts) \<and>
           objects h' t1 = objects h t1 @ [PyRef (lim h)] \<and>
           objects h' t2 = objects h t2 @ [PyRef (Suc (Suc (lim h)))] \<and>
           objects h' t3 = objects h t3 @ [PyRef (Suc (lim h))] \<and>
           (\<forall>b < lim h. b \<notin> {t1, t2, t3} \<longrightarrow> objects h' b = objects h b)"
proof -
  let ?ia = "lim h" and ?ma = "Suc (lim h)" and ?ta = "Suc (Suc (lim h))"
  define h3 where "h3 = snd (alloc [PyInt nt] (snd (alloc [PyBool False]
      (snd (alloc [PyInt (cls_token_id tk)] h)))))"
  have lim3: "lim h3 = lim h + 3"
    by (simp add: h3_def)
  have obj3: "objects h3 b = (if b = ?ta then [PyInt nt] else if b = ?ma then [PyBool False]
      else if b = ?ia then [PyInt (cls_token_id tk)] else objects h b)" for b
    by (simp add: h3_def)
  have d: "?ia \<noteq> ?ma" "?ia \<noteq> ?ta" "?ma \<noteq> ?ta"
    by simp_all
  have g3: "g \<notin> {?ia, ?ma, ?ta}" "g < lim h3" "objects h3 g = map PyInt ts"
    using g by (simp_all add: lim3 obj3)
  have w3: "w \<notin> {?ia, ?ma, ?ta}" "w < lim h3" "objects h3 w = map PyStr words"
    using w by (simp_all add: lim3 obj3)
  have l3: "locals_hold h3 (?ia, ?ma, ?ta) ([cls_token_id tk], [False], [nt])"
    by (simp add: locals_hold_def obj3)
  from store_word_loop_sim [OF d g(1) g3 w(1) w3 l3, of tk nt 0]
  obtain h4 where h4: "store_word_loop tk nt tags tokens (?ia, ?ma, ?ta) 0 h3 = Some (None, h4)"
    "lim h4 = lim h3"
    "locals_hold h4 (?ia, ?ma, ?ta)
       (foldl (add_word tk nt) ([cls_token_id tk], [False], [nt]) (zip ts words))"
    "\<forall>b. b \<notin> {?ia, ?ma, ?ta} \<longrightarrow> objects h4 b = objects h3 b"
    by auto
  let ?h' = "list_append t3 (PyRef ?ma)
             (list_append t2 (PyRef ?ta)
               (list_append t1 (PyRef ?ia)
                 (list_append ?ta (PyInt nt)
                   (list_append ?ma (PyBool False)
                     (list_append ?ia (PyInt (sep_token_id tk)) h4)))))"
  have res: "store_align_sentence tk nt (t1, t2, t3) tokens tags h = Some (None, ?h')"
    unfolding store_align_sentence_def prod.case case_prod_beta fst_alloc lim_alloc
    by (simp add: h4(1) [unfolded h3_def])
  have lim: "lim ?h' = lim h + 3"
    by (simp add: h4(2) lim3)
  have old: "objects h4 b = objects h b" if "b < lim h" for b
    using that h4(4) by (simp add: obj3)
  have loc: "locals_hold ?h' (?ia, ?ma, ?ta) (align_sentence tk nt words ts)"
    using h4(3) t(4-6)
    by (cases "foldl (add_word tk nt) ([cls_token_id tk], [False], [nt]) (zip ts words)")
      (simp add: locals_hold_def align_sentence_def)
  have lists: "objects ?h' t1 = objects h t1 @ [PyRef ?ia]"
    "objects ?h' t2 = objects h t2 @ [PyRef ?ta]"
    "objects ?h' t3 = objects h t3 @ [PyRef ?ma]"
    using t by (simp_all add: old)
  have rest: "\<forall>b < lim h. b \<notin> {t1, t2, t3} \<longrightarrow> objects ?h' b = objects h b"
    by (simp add: old)
  show ?thesis
    using res lim loc lists rest by (intro exI [of _ ?h']) (intro conjI)
qed

lemma holds_rows_D:
  assumes "holds_rows h v rows"
  obtains a where "v = PyRef a" "a < lim h" "length (objects h a) = length rows"
    "\<And>j. j < length rows \<Longrightarrow> \<exists>b. objects h a ! j = PyRef b \<and> b < lim h \<and> objects h b = rows ! j"
proof -
  from assms obtain vs where vs: "list_at h v = Some vs" "map (list_at h) vs = map Some rows"
    by (auto simp: holds_rows_def split: option.splits)
  then obtain a where a: "v = PyRef a" "a < lim h" "objects h a = vs"
    by (auto simp: list_at_Some_iff)
  have len: "length vs = length rows"
    using vs(2) by (rule map_eq_imp_length_eq)
  have "\<exists>b. vs ! j = PyRef b \<and> b < lim h \<and> objects h b = rows ! j" if "j < length rows" for j
  proof -
    have "map (list_at h) vs ! j = map Some rows ! j"
      by (simp add: vs(2))
    then have "list_at h (vs ! j) = Some (rows ! j)"
      using that len by simp
    then show ?thesis
      by (simp add: list_at_Some_iff)
  qed
  with a len show ?thesis
    by (intro that [of a]) simp_all
qed

lemma store_batch_loop_sim:
  assumes tok: "holds_rows h0 text_tokens (map (map PyStr) tt)"
    and tag: "holds_rows h0 text_tags (map (map PyInt) tg)"
    and inv: "batch_inv tk nt h0 tt tg k h"
    and k: "k \<le> min (length tt) (length tg)"
  shows "\<exists>h'. store_batch_loop tk nt text_tokens text_tags (lim h0, lim h0 + 1, lim h0 + 2) k h =
              Some (None, h') \<and>
           batch_inv tk nt h0 tt tg (min (length tt) (length tg)) h'"
  using inv k
proof (induction "min (length tt) (length tg) - k" arbitrary: k h)
  case 0
  then have keq: "k = min (length tt) (length tg)"
    by simp
  from tok obtain T where T: "text_tokens = PyRef T" "T < lim h0"
    "length (objects h0 T) = length tt"
    by (rule holds_rows_D) simp
  from tag obtain G where G: "text_tags = PyRef G" "G < lim h0"
    "length (objects h0 G) = length tg"
    by (rule holds_rows_D) simp
  have same: "objects h T = objects h0 T" "objects h G = objects h0 G" "T < lim h" "G < lim h"
    using 0(2) T(2) G(2) by (simp_all add: batch_inv_def)
  have "store_batch_loop tk nt text_tokens text_tags (lim h0, lim h0 + 1, lim h0 + 2) k h = Some (None, h)"
    using keq by (subst store_batch_loop.simps) (auto simp: list_at_def T G same)
  with 0(2) keq show ?case
    by simp
next
  case (Suc n)
  then have klt: "k < length tt" "k < length tg"
    by simp_all
  let ?n0 = "lim h0"
  from tok obtain T where T: "text_tokens = PyRef T" "T < ?n0"
    "length (objects h0 T) = length tt"
    "\<And>j. j < length tt \<Longrightarrow> \<exists>b. objects h0 T ! j = PyRef b \<and> b < ?n0 \<and> objects h0 b = map PyStr (tt ! j)"
    by (rule holds_rows_D) simp
  from tag obtain G where G: "text_tags = PyRef G" "G < ?n0"
    "length (objects h0 G) = length tg"
    "\<And>j. j < length tg \<Longrightarrow> \<exists>b. objects h0 G ! j = PyRef b \<and> b < ?n0 \<and> objects h0 b = map PyInt (tg ! j)"
    by (rule holds_rows_D) simp
  note inv = Suc.prems(1) [unfolded batch_inv_def]
  have limh: "lim h = ?n0 + 3 + 3 * k"
    using inv by simp
  have old: "objects h a = objects h0 a" if "a < ?n0" for a
    using inv that by simp
  obtain w where w: "objects h0 T ! k = PyRef w" "w < ?n0" "objects h0 w = map PyStr (tt ! k)"
    using T(4) [OF klt(1)] by blast
  obtain g where g: "objects h0 G ! k = PyRef g" "g < ?n0" "objects h0 g = map PyInt (tg ! k)"
    using G(4) [OF klt(2)] by blast
  have t: "?n0 \<noteq> ?n0 + 1" "?n0 \<noteq> ?n0 + 2" "?n0 + 1 \<noteq> ?n0 + 2"
    "?n0 < lim h" "?n0 + 1 < lim h" "?n0 + 2 < lim h"
    by (simp_all add: limh)
  have g': "g \<notin> {?n0, ?n0 + 1, ?n0 + 2}" "g < lim h" "objects h g = map PyInt (tg ! k)"
    using g by (simp_all add: limh old)
  have w': "w \<notin> {?n0, ?n0 + 1, ?n0 + 2}" "w < lim h" "objects h w = map PyStr (tt ! k)"
    using w by (simp_all add: limh old)
  from store_align_sentence_sim [OF t refl g' refl w', of tk nt]
  obtain h1 where h1:
    "store_align_sentence tk nt (?n0, ?n0 + 1, ?n0 + 2) (PyRef w) (PyRef g) h = Some (None, h1)"
    "lim h1 = lim h + 3"
    "locals_hold h1 (lim h, Suc (lim h), Suc (Suc (lim h))) (align_sentence tk nt (tt ! k) (tg ! k))"
    "objects h1 ?n0 = objects h ?n0 @ [PyRef (lim h)]"
    "objects h1 (?n0 + 1) = objects h (?n0 + 1) @ [PyRef (Suc (Suc (lim h)))]"
    "objects h1 (?n0 + 2) = objects h (?n0 + 2) @ [PyRef (Suc (lim h))]"
    "\<forall>b < lim h. b \<notin> {?n0, ?n0 + 1, ?n0 + 2} \<longrightarrow> objects h1 b = objects h b"
    by blast
  have unf: "store_batch_loop tk nt text_tokens text_tags (?n0, ?n0 + 1, ?n0 + 2) k h =
             store_batch_loop tk nt text_tokens text_tags (?n0, ?n0 + 1, ?n0 + 2) (Suc k) h1"
    using klt T(1-3) G(1-3) w(1) g(1) h1(1)
    by (subst store_batch_loop.simps) (simp add: list_at_def old limh)
  have rows: "locals_hold h1 (?n0 + 3 + 3 * j, ?n0 + 3 + 3 * j + 1, ?n0 + 3 + 3 * j + 2)
                  (align_sentence tk nt (tt ! j) (tg ! j))" if "j < Suc k" for j
  proof (cases "j = k")
    case True
    then show ?thesis
      using h1(3) by (simp add: limh)
  next
    case False
    with that have j: "j < k" by simp
    then have "locals_hold h (?n0 + 3 + 3 * j, ?n0 + 3 + 3 * j + 1, ?n0 + 3 + 3 * j + 2)
                  (align_sentence tk nt (tt ! j) (tg ! j))"
      using inv by simp
    moreover have "objects h1 (?n0 + 3 + 3 * j) = objects h (?n0 + 3 + 3 * j)"
      "objects h1 (?n0 + 3 + 3 * j + 1) = objects h (?n0 + 3 + 3 * j + 1)"
      "objects h1 (?n0 + 3 + 3 * j + 2) = objects h (?n0 + 3 + 3 * j + 2)"
      using h1(7) j by (simp_all add: limh)
    ultimately show ?thesis
      by (simp add: locals_hold_def)
  qed
  have inv1: "batch_inv tk nt h0 tt tg (Suc k) h1"
    unfolding batch_inv_def
  proof (intro conjI allI impI)
    show "lim h1 = ?n0 + 3 + 3 * Suc k"
      by (simp add: h1(2) limh)
    show "objects h1 a = objects h0 a" if "a < ?n0" for a
      using that h1(7) old by (simp add: limh)
    show "objects h1 ?n0 = map (\<lambda>j. PyRef (?n0 + 3 + 3 * j)) [0..<Suc k]"
      using inv h1(4) by (simp add: limh)
    show "objects h1 (?n0 + 1) = map (\<lambda>j. PyRef (?n0 + 3 + 3 * j + 2)) [0..<Suc k]"
      using inv h1(5) by (simp add: limh)
    show "objects h1 (?n0 + 2) = map (\<lambda>j. PyRef (?n0 + 3 + 3 * j + 1)) [0..<Suc k]"
      using inv h1(6) by (simp add: limh)
    show "locals_hold h1 (?n0 + 3 + 3 * j, ?n0 + 3 + 3 * j + 1, ?n0 + 3 + 3 * j + 2)
                  (align_sentence tk nt (tt ! j) (tg ! j))" if "j < Suc k" for j
      using that by (rule rows)
  qed
  have n: "n = min (length tt) (length tg) - Suc k"
    using Suc.hyps(2) by simp
  from Suc.hyps(1) [OF n inv1] klt unf show ?case
    by simp
qed

lemma those_map_Some: "those (map (\<lambda>x. Some (f x)) xs) = Some (map f xs)"
  by (induction xs) simp_all

lemma align_batch_upt:
  "align_batch tk nt tt tg =
     map (\<lambda>j. align_sentence tk nt (tt ! j) (tg ! j)) [0..<min (length tt) (length tg)]"
  by (rule nth_equalityI) (simp_all add: align_batch_length align_batch_nth)

lemma store_max_len_sim:
  assumes "batch_inv tk nt h0 tt tg (min (length tt) (length tg)) h"
  shows "store_max_len h (lim h0) =
           py_max (map (\<lambda>(indexes, tag_mask, aligned_tags). length indexes) (align_batch tk nt tt tg))"
proof -
  let ?n = "min (length tt) (length tg)"
  note inv = assms [unfolded batch_inv_def]
  have "map (\<lambda>v. map_option length (list_at h v)) (objects h (lim h0)) =
        map (\<lambda>j. Some (length (fst (align_sentence tk nt (tt ! j) (tg ! j))))) [0..<?n]"
  proof -
    have "map_option length (list_at h (PyRef (lim h0 + 3 + 3 * j))) =
          Some (length (fst (align_sentence tk nt (tt ! j) (tg ! j))))" if "j < ?n" for j
    proof -
      have "locals_hold h (lim h0 + 3 + 3 * j, lim h0 + 3 + 3 * j + 1, lim h0 + 3 + 3 * j + 2)
                  (align_sentence tk nt (tt ! j) (tg ! j))"
        using inv that by simp
      moreover have "lim h0 + 3 + 3 * j < lim h"
        using inv that by simp
      ultimately show ?thesis
        by (cases "align_sentence tk nt (tt ! j) (tg ! j)") (simp add: locals_hold_def list_at_def)
    qed
    then show ?thesis
      using inv by (simp add: comp_def)
  qed
  then have "those (map (\<lambda>v. map_option length (list_at h v)) (objects h (lim h0))) =
        Some (map (\<lambda>j. length (fst (align_sentence tk nt (tt ! j) (tg ! j)))) [0..<?n])"
    by (simp only: those_map_Some)
  moreover have "map (\<lambda>(indexes, tag_mask, aligned_tags). length indexes) (align_batch tk nt tt tg) =
        map (\<lambda>j. length (fst (align_sentence tk nt (tt ! j) (tg ! j)))) [0..<?n]"
    by (simp add: align_batch_upt comp_def case_prod_unfold)
  ultimately show ?thesis
    by (simp add: store_max_len_def)
qed

lemma extend_item_ref:
  "objects h a ! i = PyRef b \<Longrightarrow> b < lim h \<Longrightarrow> extend_item a i vs h = Inr (list_extend b vs h)"
  by (simp add: extend_item_def)

lemma store_pad_loop_sim:
  assumes inv: "pad_inv tk nt h0 tt tg n M i h"
    and i: "i \<le> n"
  shows "\<exists>h'. store_pad_loop tk nt M
                 (lim h0, lim h0 + 2, lim h0 + 1, lim h0 + 3 + 3 * n) i h =
              Some (None, h') \<and>
           pad_inv tk nt h0 tt tg n M (n) h'"
  using inv i
proof (induction "n - i" arbitrary: i h)
  case 0
  from 0 have ieq: "i = n"
    by simp
  note inv = 0(2) [unfolded pad_inv_def Let_def]
  have "length (objects h (lim h0)) = n"
    using inv by simp
  then have "store_pad_loop tk nt M (lim h0, lim h0 + 2, lim h0 + 1, lim h0 + 3 + 3 * n) i h =
        Some (None, h)"
    using ieq by (subst store_pad_loop.simps) simp
  with 0(2) ieq show ?case
    by simp
next
  case (Suc m)
  let ?z = "lim h0"
  let ?b = "lim h0 + 3"
  let ?c = "lim h0 + 3 + 3 * n"
  from Suc.hyps(2) have ilt: "i < n"
    by simp
  note inv = Suc.prems(1) [unfolded pad_inv_def Let_def]
  have limh: "lim h = ?c + 1 + i"
    using inv by simp
  have lists: "objects h ?z = map (\<lambda>j. PyRef (?b + 3 * j)) [0..<n]"
    "objects h (?z + 1) = map (\<lambda>j. PyRef (?b + 3 * j + 2)) [0..<n]"
    "objects h (?z + 2) = map (\<lambda>j. PyRef (?b + 3 * j + 1)) [0..<n]"
    "objects h ?c = map (\<lambda>j. PyRef (?c + 1 + j)) [0..<i]"
    using inv by simp_all
  obtain ids tmask atags where
    s: "align_sentence tk nt (tt ! i) (tg ! i) = (ids, tmask, atags)"
    by (cases "align_sentence tk nt (tt ! i) (tg ! i)")
  have rowi: "objects h (?b + 3 * i) = map PyInt ids"
    "objects h (?b + 3 * i + 1) = map PyBool tmask"
    "objects h (?b + 3 * i + 2) = map PyInt atags"
    using inv ilt s by auto
  let ?p = "M - length ids"
  define h1 where "h1 = list_append ?c (PyRef (lim h))
      (snd (alloc (replicate (length ids) (PyInt 1) @ replicate ?p (PyInt 0)) h))"
  define h2 where "h2 = list_extend (?b + 3 * i) (replicate ?p (PyInt (pad_token_id tk))) h1"
  define h3 where "h3 = list_extend (?b + 3 * i + 1) (replicate ?p (PyBool False)) h2"
  define h4 where "h4 = list_extend (?b + 3 * i + 2) (replicate ?p (PyInt nt)) h3"
  have lim1: "lim h1 = Suc (lim h)" and lim2: "lim h2 = Suc (lim h)" and lim3: "lim h3 = Suc (lim h)"
    and lim4: "lim h4 = Suc (lim h)"
    by (simp_all add: h1_def h2_def h3_def h4_def)
  have obj1: "objects h1 a = (if a = ?c then objects h ?c @ [PyRef (lim h)]
      else if a = lim h then replicate (length ids) (PyInt 1) @ replicate ?p (PyInt 0)
      else objects h a)" for a
    by (simp add: h1_def limh)
  have e0: "list_at h (objects h ?z ! i) = Some (map PyInt ids)"
    using ilt lists rowi by (simp add: list_at_def limh)
  have e1: "extend_item ?z i (replicate ?p (PyInt (pad_token_id tk))) h1 = Inr h2"
    unfolding h2_def using ilt lists
    by (intro extend_item_ref) (simp_all add: obj1 lim1 limh)
  have e2: "extend_item (?z + 2) i (replicate ?p (PyBool False)) h2 = Inr h3"
    unfolding h3_def using ilt lists
    by (intro extend_item_ref) (simp_all add: h2_def obj1 lim1 limh)
  have e3: "extend_item (?z + 1) i (replicate ?p (PyInt nt)) h3 = Inr h4"
    unfolding h4_def using ilt lists
    by (intro extend_item_ref) (simp_all add: h3_def h2_def obj1 lim1 limh)
  have unf: "store_pad_loop tk nt M (?z, ?z + 2, ?z + 1, ?c) i h =
             store_pad_loop tk nt M (?z, ?z + 2, ?z + 1, ?c) (Suc i) h4"
    using ilt e0 e1 [unfolded h1_def] e2 e3 lists
    by (subst store_pad_loop.simps) (simp add: case_prod_beta Let_def)
  have obj4: "objects h4 a =
     (if a = ?b + 3 * i + 2 then map PyInt atags @ replicate ?p (PyInt nt)
      else if a = ?b + 3 * i + 1 then map PyBool tmask @ replicate ?p (PyBool False)
      else if a = ?b + 3 * i then map PyInt ids @ replicate ?p (PyInt (pad_token_id tk))
      else if a = ?c then objects h ?c @ [PyRef (lim h)]
      else if a = lim h then replicate (length ids) (PyInt 1) @ replicate ?p (PyInt 0)
      else objects h a)" for a
    using ilt rowi by (simp add: h4_def h3_def h2_def obj1 limh)
  have inv4: "pad_inv tk nt h0 tt tg n M (Suc i) h4"
    unfolding pad_inv_def Let_def
  proof (intro conjI allI impI)
    show "lim h4 = ?c + 1 + Suc i"
      by (simp add: lim4 limh)
    show "objects h4 a = objects h0 a" if "a < ?z" for a
      using that inv by (simp add: obj4 limh)
    show "objects h4 ?z = map (\<lambda>j. PyRef (?b + 3 * j)) [0..<n]"
      using lists(1) by (simp add: obj4 limh)
    show "objects h4 (?z + 1) = map (\<lambda>j. PyRef (?b + 3 * j + 2)) [0..<n]"
      using lists(2) by (simp add: obj4 limh)
    show "objects h4 (?z + 2) = map (\<lambda>j. PyRef (?b + 3 * j + 1)) [0..<n]"
      using lists(3) by (simp add: obj4 limh)
    show "objects h4 ?c = map (\<lambda>j. PyRef (?c + 1 + j)) [0..<Suc i]"
      using lists(4) ilt by (simp add: obj4 limh)
    show "case align_sentence tk nt (tt ! j) (tg ! j) of
            (indexes, tag_mask, aligned_tags) \<Rightarrow>
              objects h4 (?b + 3 * j) =
                map PyInt (indexes @ replicate (if j < Suc i then M - length indexes else 0)
                                               (pad_token_id tk)) \<and>
              objects h4 (?b + 3 * j + 1) =
                map PyBool (tag_mask @ replicate (if j < Suc i then M - length indexes else 0) False) \<and>
              objects h4 (?b + 3 * j + 2) =
                map PyInt (aligned_tags @ replicate (if j < Suc i then M - length indexes else 0) nt) \<and>
              (j < Suc i \<longrightarrow> objects h4 (?c + 1 + j) =
                map PyInt (replicate (length indexes) 1 @ replicate (M - length indexes) 0))"
      if j: "j < n" for j
    proof (cases "j = i")
      case True
      then show ?thesis
        using ilt by (simp add: s obj4 limh)
    next
      case False
      obtain ids' tmask' atags' where
        s': "align_sentence tk nt (tt ! j) (tg ! j) = (ids', tmask', atags')"
        by (cases "align_sentence tk nt (tt ! j) (tg ! j)")
      have old: "objects h (?b + 3 * j) =
                map PyInt (ids' @ replicate (if j < i then M - length ids' else 0) (pad_token_id tk))"
        "objects h (?b + 3 * j + 1) =
                map PyBool (tmask' @ replicate (if j < i then M - length ids' else 0) False)"
        "objects h (?b + 3 * j + 2) =
                map PyInt (atags' @ replicate (if j < i then M - length ids' else 0) nt)"
        "j < i \<longrightarrow> objects h (?c + 1 + j) =
                map PyInt (replicate (length ids') 1 @ replicate (M - length ids') 0)"
        using inv j s' by auto
      have ne: "?b + 3 * j \<noteq> ?b + 3 * i + 2" "?b + 3 * j \<noteq> ?b + 3 * i + 1" "?b + 3 * j \<noteq> ?b + 3 * i"
        "?b + 3 * j + 1 \<noteq> ?b + 3 * i + 2" "?b + 3 * j + 1 \<noteq> ?b + 3 * i + 1" "?b + 3 * j + 1 \<noteq> ?b + 3 * i"
        "?b + 3 * j + 2 \<noteq> ?b + 3 * i + 2" "?b + 3 * j + 2 \<noteq> ?b + 3 * i + 1" "?b + 3 * j + 2 \<noteq> ?b + 3 * i"
        using False by presburger+
      have lt: "?b + 3 * j + 2 < ?c"
        using j by simp
      have r0: "objects h4 (?b + 3 * j) = objects h (?b + 3 * j)"
        using ne lt unfolding obj4 by (simp add: limh)
      have r1: "objects h4 (?b + 3 * j + 1) = objects h (?b + 3 * j + 1)"
        using ne lt unfolding obj4 by (simp add: limh)
      have r2: "objects h4 (?b + 3 * j + 2) = objects h (?b + 3 * j + 2)"
        using ne lt unfolding obj4 by (simp add: limh)
      have ne3: "?c + 1 + j \<noteq> ?b + 3 * i + 2" "?c + 1 + j \<noteq> ?b + 3 * i + 1"
        "?c + 1 + j \<noteq> ?b + 3 * i" "?c + 1 + j \<noteq> ?c"
        using ilt by presburger+
      have r3: "objects h4 (?c + 1 + j) = objects h (?c + 1 + j)" if "j < i"
        using that ne3 unfolding obj4 by (simp add: limh)
      have ji: "j < Suc i \<longleftrightarrow> j < i"
        using False by auto
      show ?thesis
        unfolding s' prod.case ji r0 r1 r2 using old r3 by simp
    qed
  qed
  have m: "m = n - Suc i"
    using Suc.hyps(2) by simp
  from Suc.hyps(1) [OF m inv4] ilt unf show ?case
    by simp
qed

lemma holds_rows_unchanged:
  assumes "unchanged_below (lim h) h h'" "holds_rows h v rows"
  shows "holds_rows h' v rows"
proof -
  have same: "list_at h' u = list_at h u" if "list_at h u \<noteq> None" for u
    using that assms(1) by (cases u) (auto simp: list_at_def unchanged_below_def split: if_splits)
  from assms(2) obtain vs where vs: "list_at h v = Some vs" "map (list_at h) vs = map Some rows"
    by (auto simp: holds_rows_def split: option.splits)
  have "list_at h u \<noteq> None" if "u \<in> set vs" for u
  proof -
    from that have "list_at h u \<in> set (map (list_at h) vs)"
      by simp
    then show ?thesis
      unfolding vs(2) by auto
  qed
  then have "map (list_at h') vs = map (list_at h) vs"
    by (intro map_cong refl same)
  then show ?thesis
    using vs same [of v] by (simp add: holds_rows_def)
qed

lemma holds_rows_I:
  assumes "a < lim h" "objects h a = map (\<lambda>j. PyRef (f j)) [0..<n]" "length rows = n"
    and "\<And>j. j < n \<Longrightarrow> f j < lim h \<and> objects h (f j) = rows ! j"
  shows "holds_rows h (PyRef a) rows"
proof -
  have "map (list_at h) (map (\<lambda>j. PyRef (f j)) [0..<n]) = map Some rows"
    using assms(3,4) by (intro nth_equalityI) (simp_all add: list_at_def)
  then show ?thesis
    using assms(1,2) by (simp add: holds_rows_def list_at_def)
qed


subsection \<open>The lists given to the aligner\<close>

text \<open>
  Claim C10. When the two arguments refer to a batch of word lists and a batch of tag lists
  in the store, the call ends, and every list that was in the store before the call has
  the same elements after it: the two lists of the batch and the lists of every sentence
  hold what they held. The outcome is that of the aligner without a store; the four lists
  it hands to the tensor constructor are at addresses that were not in use before the call
  and hold the four lists of \<open>aligned_lists\<close>.
\<close>

theorem aligner_leaves_inputs_unchanged:
  assumes tok: "holds_rows h text_tokens (map (map PyStr) tt)"
    and tag: "holds_rows h text_tags (map (map PyInt) tg)"
  shows "\<exists>out h'.
      store_aligned_lists tk text_tokens text_tags no_tag h = Some (out, h') \<and>
      unchanged_below (lim h) h h' \<and>
      holds_rows h' text_tokens (map (map PyStr) tt) \<and>
      holds_rows h' text_tags (map (map PyInt) tg) \<and>
      (case aligned_lists tk tt tg no_tag of
         Inl e \<Rightarrow> out = Inl e
       | Inr (ti, tm, at, tgm) \<Rightarrow>
           (\<exists>a1 a2 a3 a4. out = Inr (a1, a2, a3, a4) \<and>
              lim h \<le> a1 \<and> lim h \<le> a2 \<and> lim h \<le> a3 \<and> lim h \<le> a4 \<and>
              holds_rows h' (PyRef a1) (map (map PyInt) ti) \<and>
              holds_rows h' (PyRef a2) (map (map PyInt) tm) \<and>
              holds_rows h' (PyRef a3) (map (map PyInt) at) \<and>
              holds_rows h' (PyRef a4) (map (map PyBool) tgm)))"
proof -
  let ?z = "lim h"
  define n where "n = min (length tt) (length tg)"
  define h3 where "h3 = snd (alloc [] (snd (alloc [] (snd (alloc [] h)))))"
  have inv3: "batch_inv tk no_tag h tt tg 0 h3"
    by (simp add: batch_inv_def h3_def)
  from store_batch_loop_sim [OF tok tag inv3]
  obtain h4 where h4:
    "store_batch_loop tk no_tag text_tokens text_tags (?z, ?z + 1, ?z + 2) 0 h3 = Some (None, h4)"
    "batch_inv tk no_tag h tt tg n h4"
    unfolding n_def by auto
  note inv4 = h4(2) [unfolded batch_inv_def]
  have ml: "store_max_len h4 ?z =
      py_max (map (\<lambda>(indexes, tag_mask, aligned_tags). length indexes) (align_batch tk no_tag tt tg))"
    using h4(2) unfolding n_def by (rule store_max_len_sim)
  show ?thesis
  proof (cases "tt = [] \<or> tg = []")
    case True
    then have "align_batch tk no_tag tt tg = []"
      by (auto simp: align_batch_def)
    then have res: "store_aligned_lists tk text_tokens text_tags no_tag h =
        Some (Inl ValueError, h4)"
      unfolding store_aligned_lists_def case_prod_beta fst_alloc lim_alloc
      using h4(1) [unfolded h3_def] ml by simp
    have un: "unchanged_below ?z h h4"
      using inv4 by (simp add: unchanged_below_def)
    have pure: "aligned_lists tk tt tg no_tag = Inl ValueError"
      using True by (rule aligned_lists_empty)
    show ?thesis
      using res un holds_rows_unchanged [OF un tok] holds_rows_unchanged [OF un tag]
      by (simp add: pure)
  next
    case False
    then have ne: "tt \<noteq> []" "tg \<noteq> []"
      by simp_all
    let ?M = "batch_max_len tk no_tag tt tg"
    let ?c = "?z + 3 + 3 * n"
    obtain s ss where b: "align_batch tk no_tag tt tg = s # ss"
      using ne by (cases tt; cases tg) (auto simp: align_batch_def)
    have mlM: "store_max_len h4 ?z = Inr ?M"
      unfolding ml batch_max_len_def b list.map py_max_Cons ..
    have limh4: "lim h4 = ?c"
      using inv4 by simp
    define h5 where "h5 = snd (alloc [] h4)"
    have inv5: "pad_inv tk no_tag h tt tg n ?M 0 h5"
      unfolding pad_inv_def Let_def
    proof (intro conjI allI impI)
      show "lim h5 = ?c + 1 + 0"
        by (simp add: h5_def limh4)
      show "objects h5 a = objects h a" if "a < ?z" for a
        using that inv4 by (simp add: h5_def limh4)
      show "objects h5 ?z = map (\<lambda>j. PyRef (?z + 3 + 3 * j)) [0..<n]"
        using inv4 by (simp add: h5_def limh4)
      show "objects h5 (?z + 1) = map (\<lambda>j. PyRef (?z + 3 + 3 * j + 2)) [0..<n]"
        using inv4 by (simp add: h5_def limh4)
      show "objects h5 (?z + 2) = map (\<lambda>j. PyRef (?z + 3 + 3 * j + 1)) [0..<n]"
        using inv4 by (simp add: h5_def limh4)
      show "objects h5 ?c = map (\<lambda>j. PyRef (?c + 1 + j)) [0..<0]"
        by (simp add: h5_def limh4)
      show "case align_sentence tk no_tag (tt ! j) (tg ! j) of
            (indexes, tag_mask, aligned_tags) \<Rightarrow>
              objects h5 (?z + 3 + 3 * j) =
                map PyInt (indexes @ replicate (if j < 0 then ?M - length indexes else 0)
                                               (pad_token_id tk)) \<and>
              objects h5 (?z + 3 + 3 * j + 1) =
                map PyBool (tag_mask @ replicate (if j < 0 then ?M - length indexes else 0) False) \<and>
              objects h5 (?z + 3 + 3 * j + 2) =
                map PyInt (aligned_tags @ replicate (if j < 0 then ?M - length indexes else 0) no_tag) \<and>
              (j < 0 \<longrightarrow> objects h5 (?c + 1 + j) =
                map PyInt (replicate (length indexes) 1 @ replicate (?M - length indexes) 0))"
        if j: "j < n" for j
      proof -
        have "locals_hold h4 (?z + 3 + 3 * j, ?z + 3 + 3 * j + 1, ?z + 3 + 3 * j + 2)
                  (align_sentence tk no_tag (tt ! j) (tg ! j))"
          using inv4 j by simp
        then show ?thesis
          using j by (cases "align_sentence tk no_tag (tt ! j) (tg ! j)")
            (simp add: locals_hold_def h5_def limh4)
      qed
    qed
    from store_pad_loop_sim [OF inv5, of ] obtain h6 where h6:
      "store_pad_loop tk no_tag ?M (?z, ?z + 2, ?z + 1, ?c) 0 h5 = Some (None, h6)"
      "pad_inv tk no_tag h tt tg n ?M n h6"
      by auto
    note inv6 = h6(2) [unfolded pad_inv_def Let_def]
    have res: "store_aligned_lists tk text_tokens text_tags no_tag h =
        Some (Inr (?z, ?c, ?z + 1, ?z + 2), h6)"
      unfolding store_aligned_lists_def case_prod_beta fst_alloc lim_alloc
      using h4(1) [unfolded h3_def] mlM h6(1) [unfolded h5_def] by (simp add: limh4)
    have un: "unchanged_below ?z h h6"
      using inv6 by (simp add: unchanged_below_def)
    obtain ti tm at tgm where
      pure: "aligned_lists tk tt tg no_tag = Inr (ti, tm, at, tgm)"
      using aligned_lists_nonempty [OF ne] by blast
    note len = aligned_lists_row(3-6) [OF pure, folded n_def]
    have row: "objects h6 (?z + 3 + 3 * j) = map PyInt (ti ! j) \<and>
               objects h6 (?z + 3 + 3 * j + 1) = map PyBool (tgm ! j) \<and>
               objects h6 (?z + 3 + 3 * j + 2) = map PyInt (at ! j) \<and>
               objects h6 (?c + 1 + j) = map PyInt (tm ! j)" if j: "j < n" for j
    proof -
      obtain ids tmask atags where
        s: "align_sentence tk no_tag (tt ! j) (tg ! j) = (ids, tmask, atags)"
        by (cases "align_sentence tk no_tag (tt ! j) (tg ! j)")
      have jj: "j < length tt" "j < length tg"
        using j by (simp_all add: n_def)
      from inv6 j s have
        "objects h6 (?z + 3 + 3 * j) = map PyInt (ids @ replicate (?M - length ids) (pad_token_id tk))"
        "objects h6 (?z + 3 + 3 * j + 1) = map PyBool (tmask @ replicate (?M - length ids) False)"
        "objects h6 (?z + 3 + 3 * j + 2) = map PyInt (atags @ replicate (?M - length ids) no_tag)"
        "objects h6 (?c + 1 + j) = map PyInt (replicate (length ids) 1 @ replicate (?M - length ids) 0)"
        by auto
      then show ?thesis
        using aligned_lists_row(7) [OF pure jj s] by simp
    qed
    have o1: "holds_rows h6 (PyRef ?z) (map (map PyInt) ti)"
      using inv6 len row by (intro holds_rows_I [where n = n and f = "\<lambda>j. ?z + 3 + 3 * j"]) simp_all
    have o2: "holds_rows h6 (PyRef ?c) (map (map PyInt) tm)"
      using inv6 len row by (intro holds_rows_I [where n = n and f = "\<lambda>j. ?c + 1 + j"]) simp_all
    have o3: "holds_rows h6 (PyRef (?z + 1)) (map (map PyInt) at)"
      using inv6 len row by (intro holds_rows_I [where n = n and f = "\<lambda>j. ?z + 3 + 3 * j + 2"]) simp_all
    have o4: "holds_rows h6 (PyRef (?z + 2)) (map (map PyBool) tgm)"
      using inv6 len row by (intro holds_rows_I [where n = n and f = "\<lambda>j. ?z + 3 + 3 * j + 1"]) simp_all
    show ?thesis
      using res un holds_rows_unchanged [OF un tok] holds_rows_unchanged [OF un tag] o1 o2 o3 o4
      by (simp add: pure)
  qed
qed

text \<open>
  The example store: its two sentences are unchanged and the rows of the results are in
  new lists.
\<close>

theorem aligner_leaves_inputs_unchanged_witness:
  "holds_rows example_store (PyRef 0) (map (map PyStr) [[''I'', ''don't''], [''it'']]) \<and>
   holds_rows example_store (PyRef 1) (map (map PyInt) [[1, 2], [4]]) \<and>
   (\<exists>a1 a2 a3 a4 h'.
      store_aligned_lists example_tokeniser (PyRef 0) (PyRef 1) 0 example_store =
        Some (Inr (a1, a2, a3, a4), h') \<and>
      unchanged_below (lim example_store) example_store h' \<and>
      holds_rows h' (PyRef 0) (map (map PyStr) [[''I'', ''don't''], [''it'']]) \<and>
      holds_rows h' (PyRef 1) (map (map PyInt) [[1, 2], [4]]) \<and>
      holds_rows h' (PyRef a1)
        (map (map PyInt) [[101, 1045, 2123, 1005, 1056, 102], [101, 2009, 102, 0, 0, 0]]) \<and>
      holds_rows h' (PyRef a4)
        (map (map PyBool) [[False, True, True, False, False, False],
                           [False, True, False, False, False, False]]))"
proof -
  let ?tt = "[[''I'', ''don't''], [''it'']]"
  let ?tg = "[[1, 2], [4 :: int]]"
  have tok: "holds_rows example_store (PyRef 0) (map (map PyStr) ?tt)"
    by code_simp
  have tag: "holds_rows example_store (PyRef 1) (map (map PyInt) ?tg)"
    by code_simp
  have pure: "aligned_lists example_tokeniser ?tt ?tg 0 =
     Inr ([[101, 1045, 2123, 1005, 1056, 102], [101, 2009, 102, 0, 0, 0]],
          [[1, 1, 1, 1, 1, 1], [1, 1, 1, 0, 0, 0]],
          [[0, 1, 2, 0, 0, 0], [0, 4, 0, 0, 0, 0]],
          [[False, True, True, False, False, False], [False, True, False, False, False, False]])"
    by code_simp
  from aligner_leaves_inputs_unchanged [OF tok tag, of example_tokeniser 0]
  have "\<exists>a1 a2 a3 a4 h'.
      store_aligned_lists example_tokeniser (PyRef 0) (PyRef 1) 0 example_store =
        Some (Inr (a1, a2, a3, a4), h') \<and>
      unchanged_below (lim example_store) example_store h' \<and>
      holds_rows h' (PyRef 0) (map (map PyStr) ?tt) \<and>
      holds_rows h' (PyRef 1) (map (map PyInt) ?tg) \<and>
      holds_rows h' (PyRef a1)
        (map (map PyInt) [[101, 1045, 2123, 1005, 1056, 102], [101, 2009, 102, 0, 0, 0]]) \<and>
      holds_rows h' (PyRef a4)
        (map (map PyBool) [[False, True, True, False, False, False],
                           [False, True, False, False, False, False]])"
    unfolding pure sum.case prod.case by blast
  with tok tag show ?thesis
    by (intro conjI)
qed

text \<open>
  The function on the store is run on the small store: the four lists of the store are as
  before, and the results are at the addresses 4, 10, 5 and 6.
\<close>

lemma store_run_small_store:
  "(case store_aligned_lists example_tokeniser (PyRef 0) (PyRef 1) 0 small_store of
      None \<Rightarrow> None
    | Some (out, h') \<Rightarrow> Some (out, lim h', map (objects h') [0..<4])) =
     Some (Inr (4, 10, 5, 6), 12, [[PyRef 2], [PyRef 3], [PyStr ''I''], [PyInt 1]])"
  by code_simp

section \<open>Properties of the vocabulary construction\<close>

subsection \<open>Merging a pair in a word\<close>

lemma concat_merge_word: "concat (merge_word a b ts) = concat ts"
  by (induction a b ts rule: merge_word.induct) simp_all

lemma merge_word_split:
  "merge_word a b ts = xs' @ zs' \<Longrightarrow>
     \<exists>xs zs. ts = xs @ zs \<and> merge_word a b xs = xs' \<and> merge_word a b zs = zs'"
proof (induction a b ts arbitrary: xs' rule: merge_word.induct)
  case (3 a b x y ts)
  show ?case
  proof (cases xs')
    case Nil
    with "3.prems" have
      "x # y # ts = [] @ (x # y # ts) \<and> merge_word a b [] = xs' \<and> merge_word a b (x # y # ts) = zs'"
      by simp
    then show ?thesis
      by blast
  next
    case (Cons u us')
    show ?thesis
    proof (cases "x = a \<and> y = b")
      case True
      with "3.prems" Cons have "merge_word a b ts = us' @ zs'" and u: "u = a @ b"
        by simp_all
      from "3.IH"(1) [OF True this(1)] obtain xs zs where
        s: "ts = xs @ zs" "merge_word a b xs = us'" "merge_word a b zs = zs'"
        by blast
      from True u Cons s have
        "x # y # ts = (x # y # xs) @ zs \<and> merge_word a b (x # y # xs) = xs' \<and> merge_word a b zs = zs'"
        by simp
      then show ?thesis
        by blast
    next
      case False
      with "3.prems" Cons have m: "merge_word a b (y # ts) = us' @ zs'" and u: "u = x"
        by auto
      from "3.IH"(2) [OF False m] obtain xs zs where
        s: "y # ts = xs @ zs" "merge_word a b xs = us'" "merge_word a b zs = zs'"
        by blast
      have "merge_word a b (x # xs) = x # us'"
      proof (cases xs)
        case Nil
        with s(2) show ?thesis by simp
      next
        case (Cons y' xs0)
        with s(1) have "y' = y" by simp
        with Cons False s(2) show ?thesis by auto
      qed
      with s u Cons have
        "x # y # ts = (x # xs) @ zs \<and> merge_word a b (x # xs) = xs' \<and> merge_word a b zs = zs'"
        by simp
      then show ?thesis
        by blast
    qed
  qed
next
  case (1 a b)
  then show ?case by simp
next
  case (2 a b v)
  show ?case
  proof (cases xs')
    case Nil
    with "2" have "[v] = [] @ [v] \<and> merge_word a b [] = xs' \<and> merge_word a b [v] = zs'"
      by auto
    then show ?thesis
      by blast
  next
    case (Cons u us')
    with "2" have "[v] = [v] @ [] \<and> merge_word a b [v] = xs' \<and> merge_word a b [] = zs'"
      by auto
    then show ?thesis
      by blast
  qed
qed

lemma merge_word_split3:
  assumes "merge_word a b ts = xs' @ us' @ ys'"
  shows "\<exists>xs us ys. ts = xs @ us @ ys \<and> merge_word a b us = us'"
proof -
  from merge_word_split [OF assms] obtain xs zs where
    1: "ts = xs @ zs" "merge_word a b zs = us' @ ys'"
    by blast
  from merge_word_split [OF 1(2)] obtain us ys where
    "zs = us @ ys" "merge_word a b us = us'"
    by blast
  with 1(1) show ?thesis
    by blast
qed

lemma closed_parts_agree_merge:
  assumes "closed_parts_agree corpus"
  shows "closed_parts_agree (map (merge_word a b) corpus)"
  unfolding closed_parts_agree_def
proof (intro ballI allI impI)
  fix w1 w2 xs1 us1 ys1 xs2 us2 ys2
  assume w1: "w1 \<in> set (map (merge_word a b) corpus)"
    and w2: "w2 \<in> set (map (merge_word a b) corpus)"
    and eq: "w1 = xs1 @ us1 @ ys1 \<and> w2 = xs2 @ us2 @ ys2 \<and> concat us1 = concat us2"
  from w1 obtain v1 where v1: "v1 \<in> set corpus" "merge_word a b v1 = xs1 @ us1 @ ys1"
    using eq by auto
  from w2 obtain v2 where v2: "v2 \<in> set corpus" "merge_word a b v2 = xs2 @ us2 @ ys2"
    using eq by auto
  from merge_word_split3 [OF v1(2)] obtain p1 q1 r1 where
    1: "v1 = p1 @ q1 @ r1" "merge_word a b q1 = us1"
    by blast
  from merge_word_split3 [OF v2(2)] obtain p2 q2 r2 where
    2: "v2 = p2 @ q2 @ r2" "merge_word a b q2 = us2"
    by blast
  have "concat q1 = concat q2"
    using eq 1(2) 2(2) concat_merge_word [of a b q1] concat_merge_word [of a b q2] by simp
  with assms v1(1) v2(1) 1(1) 2(1) have "q1 = q2"
    unfolding closed_parts_agree_def by blast
  with 1(2) 2(2) show "us1 = us2"
    by simp
qed

lemma adjacent_pairs_occurrence:
  assumes "(a, b) \<in> set (adjacent_pairs corpus)"
  shows "\<exists>w \<in> set corpus. \<exists>xs ys. w = xs @ [a, b] @ ys"
proof -
  from assms obtain w where w: "w \<in> set corpus" "(a, b) \<in> set (zip w (tl w))"
    by (auto simp: adjacent_pairs_def)
  then obtain i where i: "i < length (zip w (tl w))" "zip w (tl w) ! i = (a, b)"
    by (auto simp: in_set_conv_nth)
  then have l: "Suc i < length w"
    by simp
  have "w ! i = a" "w ! Suc i = b"
    using i l by (simp_all add: nth_tl)
  then have "w = take i w @ [a, b] @ drop (Suc (Suc i)) w"
    using l by (metis Cons_nth_drop_Suc Suc_lessD append_Cons append_Nil append_take_drop_id)
  with w(1) show ?thesis
    by blast
qed

lemma entries_unsplit_merge:
  assumes k: "entries_unsplit vocabulary corpus"
    and d: "closed_parts_agree corpus"
    and p: "(a, b) \<in> set (adjacent_pairs corpus)"
  shows "a @ b \<notin> set vocabulary"
    and "entries_unsplit (List.insert (a @ b) vocabulary) (map (merge_word a b) corpus)"
proof -
  from adjacent_pairs_occurrence [OF p] obtain w0 xs0 ys0 where
    w0: "w0 \<in> set corpus" "w0 = xs0 @ [a, b] @ ys0"
    by blast
  show "a @ b \<notin> set vocabulary"
  proof
    assume "a @ b \<in> set vocabulary"
    with k w0 have "[a, b] = [a @ b]"
      unfolding entries_unsplit_def by (metis concat.simps append_Nil2)
    then show False by simp
  qed
  show "entries_unsplit (List.insert (a @ b) vocabulary) (map (merge_word a b) corpus)"
    unfolding entries_unsplit_def
  proof (intro ballI allI impI)
    fix v w xs us ys
    assume v: "v \<in> set (List.insert (a @ b) vocabulary)"
      and w: "w \<in> set (map (merge_word a b) corpus)"
      and eq: "w = xs @ us @ ys \<and> concat us = v"
    from w eq obtain w' where w': "w' \<in> set corpus" "merge_word a b w' = xs @ us @ ys"
      by auto
    from merge_word_split3 [OF w'(2)] obtain p q r where
      q: "w' = p @ q @ r" "merge_word a b q = us"
      by blast
    have cq: "concat q = v"
      using eq q(2) concat_merge_word [of a b q] by simp
    show "us = [v]"
    proof (cases "v \<in> set vocabulary")
      case True
      with k w'(1) q(1) cq have "q = [v]"
        unfolding entries_unsplit_def by blast
      with q(2) show ?thesis by simp
    next
      case False
      with v have "v = a @ b" by simp
      with cq have "concat q = concat [a, b]" by simp
      with d w'(1) w0 q(1) have "q = [a, b]"
        unfolding closed_parts_agree_def by blast
      with q(2) \<open>v = a @ b\<close> show ?thesis by simp
    qed
  qed
qed

subsection \<open>The states of the construction\<close>

lemma most_frequent_in_set: "most_frequent ps = Some p \<Longrightarrow> p \<in> set ps"
proof -
  have "fold (\<lambda>q best. if count_list ps best < count_list ps q then q else best) rest p0
      \<in> insert p0 (set rest)" for rest and p0 :: "token \<times> token"
    by (induction rest arbitrary: p0) auto
  then show "most_frequent ps = Some p \<Longrightarrow> p \<in> set ps"
    by (cases ps) (auto simp: most_frequent_def)
qed

lemma select_pair_adjacent: "select_pair corpus = Some (a, b) \<Longrightarrow> (a, b) \<in> set (adjacent_pairs corpus)"
  by (auto simp: select_pair_def split: option.splits if_splits dest: most_frequent_in_set)

lemma init_word_singletons: "t \<in> set (init_word w) \<Longrightarrow> \<exists>s. t = [s]"
  by (cases w) auto

lemma singletons_concat:
  assumes "\<forall>t \<in> set us. \<exists>s. t = [s]"
  shows "us = map (\<lambda>s. [s]) (concat us)"
  using assms by (induction us) auto

lemma init_corpus_singletons:
  assumes "w \<in> set (init_corpus text_words)" "w = xs @ us @ ys"
  shows "us = map (\<lambda>s. [s]) (concat us)"
proof -
  from assms(1) obtain x where "w = init_word x"
    by (auto simp: init_corpus_def)
  moreover have "set us \<subseteq> set w"
    using assms(2) by auto
  ultimately have "\<forall>t \<in> set us. \<exists>s. t = [s]"
    using init_word_singletons by blast
  then show ?thesis
    by (rule singletons_concat)
qed

lemma closed_parts_agree_init: "closed_parts_agree (init_corpus text_words)"
  unfolding closed_parts_agree_def
  by (metis init_corpus_singletons)

lemma entries_unsplit_init: "entries_unsplit (init_vocabulary text_words) (init_corpus text_words)"
  unfolding entries_unsplit_def
proof (intro ballI allI impI)
  fix v w xs us ys
  assume v: "v \<in> set (init_vocabulary text_words)"
    and w: "w \<in> set (init_corpus text_words)" and eq: "w = xs @ us @ ys \<and> concat us = v"
  from v obtain s where "v = [s]"
    by (auto simp: init_vocabulary_def init_corpus_def dest: init_word_singletons)
  moreover have "us = map (\<lambda>s. [s]) (concat us)"
    using w eq by (intro init_corpus_singletons) auto
  ultimately show "us = [v]"
    using eq by simp
qed

lemma constructs_invariant:
  "constructs target text_words st \<Longrightarrow>
     closed_parts_agree (snd st) \<and> entries_unsplit (fst st) (snd st)"
proof (induction rule: constructs.induct)
  case start
  show ?case
    by (simp add: closed_parts_agree_init entries_unsplit_init)
next
  case (merge st st')
  obtain vocabulary corpus where st: "st = (vocabulary, corpus)"
    by (cases st)
  from merge.hyps(2) st obtain a b where
    sel: "select_pair corpus = Some (a, b)"
    and st': "st' = (List.insert (a @ b) vocabulary, map (merge_word a b) corpus)"
    by (auto split: if_splits option.splits)
  from merge.IH st have d: "closed_parts_agree corpus" and k: "entries_unsplit vocabulary corpus"
    by simp_all
  show ?case
    using closed_parts_agree_merge [OF d] entries_unsplit_merge(2) [OF k d select_pair_adjacent [OF sel]]
    by (simp add: st')
qed

lemma bpe_loop_constructs:
  "constructs target text_words st \<Longrightarrow> constructs target text_words (bpe_loop target st)"
proof (induction target st rule: bpe_loop.induct)
  case (1 target st)
  show ?case
  proof (cases "merge_step target st")
    case None
    with "1.prems" show ?thesis by simp
  next
    case (Some st')
    with "1.prems" have "constructs target text_words st'"
      by (auto intro: constructs.merge)
    with "1.IH" Some show ?thesis by simp
  qed
qed

text \<open>
  Claim C8. In every state of the construction of the vocabulary of any corpus, a merge
  step adds one entry that the vocabulary did not have: the number of distinct entries
  grows by exactly one, and every entry stays.
\<close>

theorem merge_adds_exactly_one_entry:
  assumes "constructs target text_words (vocabulary, corpus)"
    and "merge_step target (vocabulary, corpus) = Some (vocabulary', corpus')"
  shows "card (set vocabulary') = Suc (card (set vocabulary)) \<and> set vocabulary \<subseteq> set vocabulary'"
proof -
  from assms(2) obtain a b where
    sel: "select_pair corpus = Some (a, b)" and v': "vocabulary' = List.insert (a @ b) vocabulary"
    by (auto split: if_splits option.splits)
  from constructs_invariant [OF assms(1)]
  have d: "closed_parts_agree corpus" and k: "entries_unsplit vocabulary corpus"
    by simp_all
  have new: "a @ b \<notin> set vocabulary"
    using k d select_pair_adjacent [OF sel] by (rule entries_unsplit_merge(1))
  then show ?thesis
    by (auto simp: v')
qed

text \<open>
  The corpus \<open>banana\<close> with the target size 4: the pair of the continuation tokens
  \<open>a\<close> and \<open>n\<close> occurs twice and is merged, the corpus becomes \<open>b an an a\<close>, and the
  vocabulary has the four entries \<open>b\<close>, \<open>a\<close>, \<open>n\<close> and \<open>an\<close>.
\<close>

theorem merge_adds_exactly_one_entry_witness:
  "constructs 4 [''banana''] (init_vocabulary [''banana''], init_corpus [''banana'']) \<and>
   init_vocabulary [''banana''] = [[(False, CHR ''b'')], [(True, CHR ''n'')], [(True, CHR ''a'')]] \<and>
   merge_step 4 (init_vocabulary [''banana''], init_corpus [''banana'']) =
     Some ([[(True, CHR ''a''), (True, CHR ''n'')], [(False, CHR ''b'')], [(True, CHR ''n'')],
            [(True, CHR ''a'')]],
           [[[(False, CHR ''b'')], [(True, CHR ''a''), (True, CHR ''n'')],
             [(True, CHR ''a''), (True, CHR ''n'')], [(True, CHR ''a'')]]]) \<and>
   card (set [[(True, CHR ''a''), (True, CHR ''n'')], [(False, CHR ''b'')], [(True, CHR ''n'')],
              [(True, CHR ''a'')]]) =
     Suc (card (set (init_vocabulary [''banana''])))"
proof -
  have c: "constructs 4 [''banana''] (init_vocabulary [''banana''], init_corpus [''banana''])"
    by (rule constructs.start)
  have v: "init_vocabulary [''banana''] = [[(False, CHR ''b'')], [(True, CHR ''n'')], [(True, CHR ''a'')]]"
    by code_simp
  have s: "merge_step 4 (init_vocabulary [''banana''], init_corpus [''banana'']) =
     Some ([[(True, CHR ''a''), (True, CHR ''n'')], [(False, CHR ''b'')], [(True, CHR ''n'')],
            [(True, CHR ''a'')]],
           [[[(False, CHR ''b'')], [(True, CHR ''a''), (True, CHR ''n'')],
             [(True, CHR ''a''), (True, CHR ''n'')], [(True, CHR ''a'')]]])"
    by code_simp
  from merge_adds_exactly_one_entry [OF c s]
  have "card (set [[(True, CHR ''a''), (True, CHR ''n'')], [(False, CHR ''b'')], [(True, CHR ''n'')],
              [(True, CHR ''a'')]]) =
     Suc (card (set (init_vocabulary [''banana''])))"
    by (elim conjE)
  with c v s show ?thesis
    by (intro conjI)
qed

end
